theory Spec2Isabelle
  imports Main "HOL-Library.Sublist"
begin

section \<open>Recursive removal of a directory tree (src/src/remove.ts)\<close>

text \<open>
  The module exports one asynchronous function, \<open>Remove(target)\<close>, built from four local
  closures: \<open>valid\<close> (an existence probe on \<open>FS.realpath\<close>), \<open>descriptors\<close> (a directory
  listing on \<open>FS.readdir\<close>, remapped to descriptors), \<open>clean\<close> (the recursive walker, on
  \<open>FS.unlink\<close> and \<open>FS.rm\<close>) and \<open>finalize\<close> (one forced recursive \<open>FS.rm\<close> of the target).

  The embedding passes the filesystem state explicitly, keeps the four primitives of the
  platform as parameters, and records every call of a primitive and every line written to the
  console in a trace, in the order in which the source issues them.
\<close>

subsection \<open>Data of the source\<close>

type_synonym path = string

text \<open>\<open>NodeJS.ErrnoException\<close>: the source reads and writes its \<open>code\<close> field only.\<close>

record errno_exception =
  code :: string

text \<open>\<open>Exception = NodeJS.ErrnoException | null\<close>: \<open>None\<close> is \<open>null\<close>.\<close>

type_synonym Exception = "errno_exception option"

text \<open>
  \<open>FS.Dirent\<close>: a base name and the type reported by the directory listing. The four
  predicates the source calls test that type.
\<close>

datatype dirent_type =
  DT_UNKNOWN | DT_FILE | DT_DIR | DT_LINK | DT_FIFO | DT_SOCKET | DT_CHAR | DT_BLOCK

datatype Dirent = Dirent (dirent_name: string) (dirent_type: dirent_type)

definition isFile :: "Dirent \<Rightarrow> bool" where
  "isFile d = (dirent_type d = DT_FILE)"

definition isDirectory :: "Dirent \<Rightarrow> bool" where
  "isDirectory d = (dirent_type d = DT_DIR)"

definition isSocket :: "Dirent \<Rightarrow> bool" where
  "isSocket d = (dirent_type d = DT_SOCKET)"

definition isSymbolicLink :: "Dirent \<Rightarrow> bool" where
  "isSymbolicLink d = (dirent_type d = DT_LINK)"

record properties =
  "file" :: bool
  directory :: bool
  socket :: bool
  symbolic :: bool

record Descriptor =
  name :: string
  path :: path
  properties :: properties

record rm_options =
  force :: bool
  recursive :: bool

subsection \<open>The platform: filesystem primitives and the path module\<close>

text \<open>
  The four callbacks-style primitives of \<open>fs\<close> that the source calls, as functions of an
  abstract filesystem state \<open>'s\<close>. \<open>FS.realpath\<close> and \<open>FS.readdir\<close> only read; \<open>FS.unlink\<close>
  and \<open>FS.rm\<close> hand the callback its first argument (\<open>None\<close> for \<open>null\<close>) and leave a new
  state. \<open>cwd\<close> is \<open>process.cwd()\<close>, which \<open>Path.resolve\<close> consults for a relative path.
\<close>

record 's platform =
  realpath :: "path \<Rightarrow> 's \<Rightarrow> errno_exception + path"
  readdir :: "path \<Rightarrow> 's \<Rightarrow> errno_exception + Dirent list"
  unlink :: "path \<Rightarrow> 's \<Rightarrow> Exception \<times> 's"
  rm :: "path \<Rightarrow> rm_options \<Rightarrow> 's \<Rightarrow> Exception \<times> 's"
  cwd :: path

text \<open>
  \<open>Path.resolve\<close> and \<open>Path.join\<close> of Node's \<open>path\<close> module (POSIX flavour), written after
  the library's own algorithm: \<open>normalizeString\<close> walks the segments between separators,
  drops empty and \<open>.\<close> segments and lets \<open>..\<close> remove the segment before it.
\<close>

fun split_sep :: "string \<Rightarrow> string list" where
  "split_sep [] = [[]]"
| "split_sep (c # cs) =
     (if c = CHR ''/'' then [] # split_sep cs
      else (c # hd (split_sep cs)) # tl (split_sep cs))"

fun join_sep :: "string list \<Rightarrow> string" where
  "join_sep [] = []"
| "join_sep [x] = x"
| "join_sep (x # y # ys) = x @ CHR ''/'' # join_sep (y # ys)"

definition normalize_step :: "bool \<Rightarrow> string list \<Rightarrow> string \<Rightarrow> string list" where
  "normalize_step allowAboveRoot res seg =
     (if seg = [] \<or> seg = ''.'' then res
      else if seg = ''..'' then
        (if res \<noteq> [] \<and> last res \<noteq> ''..'' then butlast res
         else if allowAboveRoot then res @ [''..'']
         else res)
      else res @ [seg])"

definition normalize_segments :: "bool \<Rightarrow> string list \<Rightarrow> string list" where
  "normalize_segments allowAboveRoot segs = foldl (normalize_step allowAboveRoot) [] segs"

definition normalizeString :: "string \<Rightarrow> bool \<Rightarrow> string" where
  "normalizeString p allowAboveRoot = join_sep (normalize_segments allowAboveRoot (split_sep p))"

definition isAbsolute :: "string \<Rightarrow> bool" where
  "isAbsolute p = (p \<noteq> [] \<and> hd p = CHR ''/'')"

text \<open>
  The loop of \<open>resolve\<close>: the arguments from the last to the first, then the working
  directory, until an absolute one has been prepended; empty arguments are skipped.
\<close>

fun resolve_loop :: "string list \<Rightarrow> string \<Rightarrow> bool \<Rightarrow> string \<times> bool" where
  "resolve_loop [] resolvedPath resolvedAbsolute = (resolvedPath, resolvedAbsolute)"
| "resolve_loop (p # ps) resolvedPath resolvedAbsolute =
     (if resolvedAbsolute then (resolvedPath, resolvedAbsolute)
      else if p = [] then resolve_loop ps resolvedPath resolvedAbsolute
      else resolve_loop ps (p @ CHR ''/'' # resolvedPath) (isAbsolute p))"

definition path_resolve :: "path \<Rightarrow> string list \<Rightarrow> path" where
  "path_resolve wd args =
     (case resolve_loop (rev args @ [wd]) [] False of
        (resolvedPath, resolvedAbsolute) \<Rightarrow>
          (let n = normalizeString resolvedPath (\<not> resolvedAbsolute)
           in if resolvedAbsolute then CHR ''/'' # n
              else if n \<noteq> [] then n else ''.''))"

definition path_normalize :: "path \<Rightarrow> path" where
  "path_normalize p =
     (if p = [] then ''.''
      else
        (let trailingSeparator = (last p = CHR ''/'');
             n = normalizeString p (\<not> isAbsolute p)
         in if n = [] then (if isAbsolute p then ''/'' else if trailingSeparator then ''./'' else ''.'')
            else (if isAbsolute p then ''/'' else []) @ n @ (if trailingSeparator then ''/'' else [])))"

definition path_join :: "string list \<Rightarrow> path" where
  "path_join args =
     (let joined = join_sep (filter (\<lambda>a. a \<noteq> []) args)
      in if joined = [] then ''.'' else path_normalize joined)"

text \<open>
  A base name, as a directory listing reports it: not empty, not \<open>.\<close> or \<open>..\<close>, and
  without a separator.
\<close>

definition base_name :: "string \<Rightarrow> bool" where
  "base_name n = (n \<noteq> [] \<and> n \<noteq> ''.'' \<and> n \<noteq> ''..'' \<and> CHR ''/'' \<notin> set n)"

text \<open>
  The components of an absolute path, and the absolute paths that are normalised: a
  separator followed by their components, joined.
\<close>

definition components :: "path \<Rightarrow> string list" where
  "components p = normalize_segments False (split_sep p)"

definition canonical :: "path \<Rightarrow> bool" where
  "canonical p = (p = CHR ''/'' # join_sep (components p))"

text \<open>
  What the loop of \<open>resolve\<close> has prepended for one argument \<open>location\<close> when the
  working directory is absolute.
\<close>

definition stem :: "path \<Rightarrow> path \<Rightarrow> string" where
  "stem wd location =
     (if location = [] then wd @ ''/''
      else if isAbsolute location then location @ ''/''
      else wd @ ''/'' @ location @ ''/'')"

subsection \<open>Promises, traces and the loop\<close>

text \<open>
  How an awaited promise ends. \<open>Resolved v\<close>: \<open>resolve(v)\<close> was called. \<open>Rejected e\<close>: the
  promise rejected, so the \<open>await\<close> throws \<open>e\<close> into the enclosing \<open>try\<close>. \<open>Uncaught e\<close>: a
  callback of a filesystem primitive executed \<open>throw e\<close>; the callback runs from the event
  loop after the promise's executor has returned, so the exception reaches no promise: the
  promise is never settled and \<open>e\<close> surfaces as an uncaught exception of the process.
  \<open>Pending\<close>: neither \<open>resolve\<close> nor \<open>reject\<close> is ever called, and the \<open>await\<close> never resumes.
\<close>

definition exception_of :: "errno_exception + 'a \<Rightarrow> Exception" where
  "exception_of r = (case r of Inl exception \<Rightarrow> Some exception | Inr v \<Rightarrow> None)"

datatype 'a settled = Resolved 'a | Rejected errno_exception | Uncaught errno_exception | Pending

text \<open>
  The trace: calls of the primitives, each with its arguments and with the \<open>exception\<close>
  its callback received (\<open>None\<close> for \<open>null\<close>), the lines of \<open>console.debug\<close>,
  \<open>console.warn\<close> and \<open>process.stdout.write\<close>, and the entry and the settlement of every
  call of \<open>clean\<close>.
\<close>

datatype event =
    Realpath path Exception
  | Readdir path Exception
  | Unlink path Exception
  | Rm path rm_options Exception
  | Debug_found
  | Debug_removing path
  | Warning Exception
  | Stdout_newline
  | Clean_called path
  | Clean_settled path

text \<open>
  An asynchronous computation takes the filesystem state and gives how it ended, the state
  it left and what it did. \<open>None\<close> is kept for a recursion deeper than the fuel of the
  model allows (see \<open>clean\<close>).
\<close>

type_synonym ('s, 'a) task = "'s \<Rightarrow> ('a settled \<times> 's \<times> event list) option"

definition done_with :: "'a \<Rightarrow> ('s, 'a) task" where
  "done_with v s = Some (Resolved v, s, [])"

definition emit :: "event \<Rightarrow> ('s, unit) task" where
  "emit e s = Some (Resolved (), s, [e])"

text \<open>\<open>await m\<close> followed by the rest of the function body \<open>k\<close>.\<close>

definition await :: "('s, 'a) task \<Rightarrow> ('a \<Rightarrow> ('s, 'b) task) \<Rightarrow> ('s, 'b) task" where
  "await m k s =
     (case m s of
        None \<Rightarrow> None
      | Some (r, s1, t1) \<Rightarrow>
          (case r of
             Resolved v \<Rightarrow>
               (case k v s1 of None \<Rightarrow> None | Some (r2, s2, t2) \<Rightarrow> Some (r2, s2, t1 @ t2))
           | Rejected e \<Rightarrow> Some (Rejected e, s1, t1)
           | Uncaught e \<Rightarrow> Some (Uncaught e, s1, t1)
           | Pending \<Rightarrow> Some (Pending, s1, t1)))"

text \<open>\<open>for await (const x of xs) { await body(x); }\<close>\<close>

fun for_await :: "('a \<Rightarrow> ('s, unit) task) \<Rightarrow> 'a list \<Rightarrow> ('s, unit) task" where
  "for_await body [] = done_with ()"
| "for_await body (x # xs) = await (body x) (\<lambda>_. for_await body xs)"

text \<open>\<open>try { m } catch (error) { h(error) }\<close>: only a rejection reaches the handler.\<close>

definition try_catch :: "('s, 'a) task \<Rightarrow> (errno_exception \<Rightarrow> ('s, 'a) task) \<Rightarrow> ('s, 'a) task" where
  "try_catch m h s =
     (case m s of
        None \<Rightarrow> None
      | Some (r, s1, t1) \<Rightarrow>
          (case r of
             Rejected e \<Rightarrow>
               (case h e s1 of None \<Rightarrow> None | Some (r2, s2, t2) \<Rightarrow> Some (r2, s2, t1 @ t2))
           | _ \<Rightarrow> Some (r, s1, t1)))"

definition throw :: "errno_exception \<Rightarrow> ('s, 'a) task" where
  "throw e s = Some (Rejected e, s, [])"

subsection \<open>The closures of \<open>Remove\<close>\<close>

text \<open>
  \<open>valid\<close>: \<open>FS.realpath(descriptor, cb)\<close> with
  \<open>cb = (exception, path) => resolve(exception ? false : !!path)\<close>. It resolves always;
  \<open>probe\<close> is the value it resolves with.
\<close>

definition probe :: "'s platform \<Rightarrow> path \<Rightarrow> 's \<Rightarrow> bool" where
  "probe fs descriptor s =
     (case realpath fs descriptor s of
        Inl exception \<Rightarrow> False
      | Inr p \<Rightarrow> p \<noteq> [])"

definition valid :: "'s platform \<Rightarrow> path \<Rightarrow> ('s, bool) task" where
  "valid fs descriptor s =
     Some (Resolved (probe fs descriptor s), s,
           [Realpath descriptor (exception_of (realpath fs descriptor s))])"

text \<open>\<open>remap\<close>: one descriptor per \<open>Dirent\<close>, its path \<open>Path.join(Path.resolve(location, name))\<close>.\<close>

definition remap :: "'s platform \<Rightarrow> path \<Rightarrow> Dirent list \<Rightarrow> Descriptor list" where
  "remap fs location files =
     map (\<lambda>descriptor.
            let canonical = path_join [path_resolve (cwd fs) [location, dirent_name descriptor]]
            in \<lparr> name = dirent_name descriptor,
                 path = canonical,
                 properties = \<lparr> file = isFile descriptor,
                                directory = isDirectory descriptor,
                                socket = isSocket descriptor,
                                symbolic = isSymbolicLink descriptor \<rparr> \<rparr>)
         files"

text \<open>
  \<open>descriptors\<close>: \<open>FS.readdir(location, cb)\<close> inside \<open>new Promise((resolve) => ...)\<close> with
  \<open>cb = (exception, files) => { if (exception) throw exception; resolve(remap(files)); }\<close>.
  The \<open>throw\<close> is executed inside the callback, and the promise has no \<open>reject\<close>.
\<close>

definition descriptors :: "'s platform \<Rightarrow> path \<Rightarrow> ('s, Descriptor list) task" where
  "descriptors fs location s =
     (case readdir fs location s of
        Inl exception \<Rightarrow> Some (Uncaught exception, s, [Readdir location (Some exception)])
      | Inr files \<Rightarrow> Some (Resolved (remap fs location files), s, [Readdir location None]))"

text \<open>
  The \<open>default\<close> branch of \<open>clean\<close>, for a descriptor that is not a directory:
  \<^verbatim>\<open>
  await new Promise(async (resolve, reject) => {
      const existence = await valid(descriptor.path);
      console.debug("[Debug] Removing", ...);
      (existence) && FS.unlink(descriptor.path, async (exception) => {
          if (exception) {
              (exception.code = "EPERM") && await new Promise((resolve) => {
                  FS.rm(descriptor.path, { force: true }, resolve)
              });
          } else (exception !== null) && console.warn("[Warning]", exception);
          resolve(null);
      });
  });
  \<close>
  \<open>exception.code = "EPERM"\<close> is an assignment; its value is the string assigned, and a
  string is truthy when it is not empty. \<open>{ force: true }\<close> leaves \<open>recursive\<close> at its
  default, \<open>false\<close>; the inner promise resolves with whatever \<open>FS.rm\<close> hands its
  callback. \<open>resolve(null)\<close> is the last statement of the callback of \<open>FS.unlink\<close>, so
  it is reached only when \<open>FS.unlink\<close> is called.
\<close>

definition forced :: rm_options where
  "forced = \<lparr> force = True, recursive = False \<rparr>"

definition truthy :: "string \<Rightarrow> bool" where
  "truthy v = (v \<noteq> [])"

definition unlink_callback :: "'s platform \<Rightarrow> Descriptor \<Rightarrow> Exception \<Rightarrow> ('s, unit) task" where
  "unlink_callback fs descriptor exception s =
     (case exception of
        Some e \<Rightarrow>
          (let e' = e\<lparr> code := ''EPERM'' \<rparr>
           in if truthy (code e')
              then (case rm fs (path descriptor) forced s of
                      (x, s') \<Rightarrow> Some (Resolved (), s', [Rm (path descriptor) forced x]))
              else Some (Resolved (), s, []))
      | None \<Rightarrow>
          (if exception \<noteq> None then Some (Resolved (), s, [Warning exception])
           else Some (Resolved (), s, [])))"

definition clean_leaf :: "'s platform \<Rightarrow> Descriptor \<Rightarrow> ('s, unit) task" where
  "clean_leaf fs descriptor =
     await (valid fs (path descriptor)) (\<lambda>existence.
     await (emit (Debug_removing (path descriptor))) (\<lambda>_.
       if existence
       then (\<lambda>s. case unlink fs (path descriptor) s of
                   (exception, s') \<Rightarrow>
                     await (emit (Unlink (path descriptor) exception))
                       (\<lambda>_. unlink_callback fs descriptor exception) s')
       else (\<lambda>s. Some (Pending, s, []))))"

text \<open>
  \<open>clean\<close>. The recursion follows the directory tree as the filesystem reports it, which
  the source does not bound; the model counts the nesting of calls down from \<open>fuel\<close> and
  gives \<open>None\<close> when a call would nest deeper. A call is bracketed in the trace by
  \<open>Clean_called\<close> and, when its promise resolves, \<open>Clean_settled\<close>.
\<close>

definition settle :: "path \<Rightarrow> ('s, unit) task \<Rightarrow> ('s, unit) task" where
  "settle p body = await (emit (Clean_called p)) (\<lambda>_. await body (\<lambda>_. emit (Clean_settled p)))"

primrec clean :: "'s platform \<Rightarrow> nat \<Rightarrow> Descriptor \<Rightarrow> ('s, unit) task" where
  "clean fs 0 = (\<lambda>descriptor s. None)"
| "clean fs (Suc fuel) = (\<lambda>descriptor.
     settle (path descriptor)
       (let recurse = directory (properties descriptor)
        in if recurse
           then await (descriptors fs (path descriptor)) (\<lambda>handlers.
                  for_await (clean fs fuel) handlers)
           else clean_leaf fs descriptor))"

text \<open>
  \<open>finalize\<close>: \<open>FS.rm(target, { force: true, recursive: true }, cb)\<close> with
  \<open>cb = (exception) => { if (exception) throw exception; resolve(null); }\<close>.
\<close>

definition purge_options :: rm_options where
  "purge_options = \<lparr> force = True, recursive = True \<rparr>"

definition finalize :: "'s platform \<Rightarrow> path \<Rightarrow> ('s, unit) task" where
  "finalize fs target s =
     (case rm fs target purge_options s of
        (Some exception, s') \<Rightarrow>
          Some (Uncaught exception, s', [Rm target purge_options (Some exception)])
      | (None, s') \<Rightarrow> Some (Resolved (), s', [Rm target purge_options None]))"

text \<open>
  The body of \<open>Remove\<close>:
  \<^verbatim>\<open>
  try {
      if (await valid()) {
          console.debug(" - Pre-Existing Directory Found");
          process.stdout.write("\n");
          console.debug("[Debug]", "Removing", ...);
          const targets = await descriptors();
          for await (const target of targets) { await clean(target); }
          await finalize();
      }
  } catch ( error ) { throw error; }
  process.stdout.write("\n");
  return;
  \<close>
\<close>

definition Remove :: "'s platform \<Rightarrow> nat \<Rightarrow> path \<Rightarrow> ('s, unit) task" where
  "Remove fs fuel target =
     await
       (try_catch
          (await (valid fs target) (\<lambda>existing.
             if existing
             then await (emit Debug_found) (\<lambda>_.
                  await (emit Stdout_newline) (\<lambda>_.
                  await (emit (Debug_removing (path_resolve (cwd fs) [target]))) (\<lambda>_.
                  await (descriptors fs target) (\<lambda>targets.
                  await (for_await (clean fs fuel) targets) (\<lambda>_.
                  finalize fs target)))))
             else done_with ()))
          (\<lambda>error. throw error))
       (\<lambda>_. emit Stdout_newline)"

subsection \<open>A small filesystem to run the model on\<close>

text \<open>
  A finite table from absolute, normalised paths to nodes, read as a map (the first entry
  of a key counts), with three tables of injected faults: the error code with which
  \<open>FS.unlink\<close>, \<open>FS.readdir\<close> or \<open>FS.rm\<close> fails at a location. A listing reports the
  entries directly below the directory, by their base names.
\<close>

datatype node = Regular | Folder | Sock | Symlink path

record disk =
  nodes :: "(path \<times> node) list"
  unlink_faults :: "(path \<times> string) list"
  readdir_faults :: "(path \<times> string) list"
  rm_faults :: "(path \<times> string) list"

definition errno :: "string \<Rightarrow> errno_exception" where
  "errno c = \<lparr> code = c \<rparr>"

fun strip_prefix :: "string \<Rightarrow> string \<Rightarrow> string option" where
  "strip_prefix [] ys = Some ys"
| "strip_prefix (x # xs) [] = None"
| "strip_prefix (x # xs) (y # ys) = (if x = y then strip_prefix xs ys else None)"

text \<open>The part of \<open>k\<close> below the directory \<open>q\<close>, when \<open>k\<close> lies below \<open>q\<close>.\<close>

definition below :: "path \<Rightarrow> path \<Rightarrow> string option" where
  "below q k =
     (case strip_prefix (if q = ''/'' then q else q @ ''/'') k of
        None \<Rightarrow> None
      | Some r \<Rightarrow> if r = [] then None else Some r)"

definition node_type :: "node \<Rightarrow> dirent_type" where
  "node_type n = (case n of Regular \<Rightarrow> DT_FILE | Folder \<Rightarrow> DT_DIR | Sock \<Rightarrow> DT_SOCKET | Symlink t \<Rightarrow> DT_LINK)"

definition children :: "path \<Rightarrow> (path \<times> node) list \<Rightarrow> Dirent list" where
  "children q tab =
     concat (map (\<lambda>k. case below q k of
                          None \<Rightarrow> []
                        | Some r \<Rightarrow>
                            (case map_of tab k of
                               None \<Rightarrow> []
                             | Some n \<Rightarrow> if base_name r then [Dirent r (node_type n)] else []))
                 (remdups (map fst tab)))"

text \<open>
  Path resolution as the kernel does it. \<open>steps\<close> are the components of a path (empty
  ones, from doubled or trailing separators, do not count); \<open>spot\<close> is the key of a
  location given by its components. \<open>namei\<close> walks the components from the location
  \<open>cur\<close>: \<open>.\<close> stays, \<open>..\<close> goes to the parent, a name must be an entry of the current
  directory; a symbolic link is followed when it is not the last component or \<open>follow\<close> is
  set, at most \<open>fuel\<close> times on one walk.
\<close>

definition steps :: "path \<Rightarrow> string list" where
  "steps p = filter (\<lambda>c. c \<noteq> []) (split_sep p)"

definition spot :: "string list \<Rightarrow> path" where
  "spot cs = CHR ''/'' # join_sep cs"

fun namei :: "(path \<times> node) list \<Rightarrow> nat \<Rightarrow> string list \<Rightarrow> string list \<Rightarrow> bool \<Rightarrow> string + string list" where
  "namei tab fuel cur [] follow = Inr cur"
| "namei tab fuel cur (c # cs) follow =
     (if c = ''.'' then namei tab fuel cur cs follow
      else if c = ''..'' then namei tab fuel (butlast cur) cs follow
      else (case map_of tab (spot (cur @ [c])) of
              None \<Rightarrow> Inl ''ENOENT''
            | Some n \<Rightarrow>
                (case n of
                   Folder \<Rightarrow> namei tab fuel (cur @ [c]) cs follow
                 | Symlink t \<Rightarrow>
                     if cs = [] \<and> \<not> follow then Inr (cur @ [c])
                     else (case fuel of
                             0 \<Rightarrow> Inl ''ELOOP''
                           | Suc f \<Rightarrow>
                               namei tab f (if isAbsolute t then [] else cur) (steps t @ cs) follow)
                 | Regular \<Rightarrow> if cs = [] then Inr (cur @ [c]) else Inl ''ENOTDIR''
                 | Sock \<Rightarrow> if cs = [] then Inr (cur @ [c]) else Inl ''ENOTDIR'')))"

text \<open>The node at a location; the root is a directory that the table does not list.\<close>

definition node_at :: "(path \<times> node) list \<Rightarrow> string list \<Rightarrow> node option" where
  "node_at tab loc = (if loc = [] then Some Folder else map_of tab (spot loc))"

text \<open>
  The location and the node that a path string names, from the working directory \<open>wd\<close>
  when it is relative; the empty path names nothing. \<open>walk_to\<close> is the plain lookup.
  \<open>locate\<close> is the lookup of \<open>stat\<close>, \<open>lstat\<close> and \<open>opendir\<close>: after a trailing separator
  the last component is followed and must be a directory.
\<close>

definition slashed :: "path \<Rightarrow> bool" where
  "slashed p = (p \<noteq> [] \<and> last p = CHR ''/'')"

definition walk_to :: "(path \<times> node) list \<Rightarrow> path \<Rightarrow> path \<Rightarrow> bool \<Rightarrow> string + string list \<times> node" where
  "walk_to tab wd p follow =
     (if p = [] then Inl ''ENOENT''
      else
        (case namei tab 40 (if isAbsolute p then [] else steps wd) (steps p) follow of
           Inl c \<Rightarrow> Inl c
         | Inr loc \<Rightarrow>
             (case node_at tab loc of
                None \<Rightarrow> Inl ''ENOENT''
              | Some n \<Rightarrow> Inr (loc, n))))"

definition locate :: "(path \<times> node) list \<Rightarrow> path \<Rightarrow> path \<Rightarrow> bool \<Rightarrow> string + string list \<times> node" where
  "locate tab wd p follow =
     (case walk_to tab wd p (follow \<or> slashed p) of
        Inl c \<Rightarrow> Inl c
      | Inr (loc, n) \<Rightarrow> if slashed p \<and> n \<noteq> Folder then Inl ''ENOTDIR'' else Inr (loc, n))"

text \<open>The last component of a path string.\<close>

definition final :: "path \<Rightarrow> string" where
  "final p = (if steps p = [] then [] else last (steps p))"

definition without :: "string list \<Rightarrow> (path \<times> node) list \<Rightarrow> (path \<times> node) list" where
  "without loc tab = filter (\<lambda>(k, n). k \<noteq> spot loc) tab"

text \<open>
  The system calls \<open>unlink(2)\<close> and \<open>rmdir(2)\<close>. Both resolve the path and never follow a
  link in its last component. \<open>unlink\<close> refuses a directory, and anything else when the
  path ends in a separator; \<open>rmdir\<close> refuses a path whose last component is \<open>.\<close>
  (\<open>EINVAL\<close>) or \<open>..\<close> (\<open>ENOTEMPTY\<close>), the root, anything that is not a directory, and a
  directory that has entries.
\<close>

definition sys_unlink :: "path \<Rightarrow> path \<Rightarrow> (path \<times> node) list \<Rightarrow> string option \<times> (path \<times> node) list" where
  "sys_unlink wd p tab =
     (case walk_to tab wd p False of
        Inl c \<Rightarrow> (Some c, tab)
      | Inr (loc, n) \<Rightarrow>
          if final p = ''.'' \<or> final p = ''..'' \<or> loc = [] \<or> n = Folder then (Some ''EISDIR'', tab)
          else if slashed p then (Some ''ENOTDIR'', tab)
          else (None, without loc tab))"

definition sys_rmdir :: "path \<Rightarrow> path \<Rightarrow> (path \<times> node) list \<Rightarrow> string option \<times> (path \<times> node) list" where
  "sys_rmdir wd p tab =
     (case walk_to tab wd p False of
        Inl c \<Rightarrow> (Some c, tab)
      | Inr (loc, n) \<Rightarrow>
          if final p = ''.'' then (Some ''EINVAL'', tab)
          else if final p = ''..'' then (Some ''ENOTEMPTY'', tab)
          else if loc = [] then (Some ''EBUSY'', tab)
          else if n \<noteq> Folder then (Some ''ENOTDIR'', tab)
          else if children (spot loc) tab \<noteq> [] then (Some ''ENOTEMPTY'', tab)
          else (None, without loc tab))"

text \<open>
  \<open>FS.rm\<close> after Node's own algorithm (\<open>rimraf\<close>): \<open>lstat\<close> the path; unlink what is not
  a directory; \<open>rmdir\<close> a directory and, when that answers that it is not empty, remove
  the entries it lists, each by the path followed by a separator and the entry's name,
  and \<open>rmdir\<close> again. When \<open>rmdir\<close> answers \<open>ENOTDIR\<close> the error of the \<open>lstat\<close> is
  reported, which is none. An answer \<open>ENOENT\<close> counts as done at every level. The
  recursion is bounded by the number of entries of the table.
\<close>

definition forgive :: "string option \<times> 'a \<Rightarrow> string option \<times> 'a" where
  "forgive r = (if fst r = Some ''ENOENT'' then (None, snd r) else r)"

fun rm_children ::
  "(path \<Rightarrow> (path \<times> node) list \<Rightarrow> string option \<times> (path \<times> node) list) \<Rightarrow> path list \<Rightarrow>
   (path \<times> node) list \<Rightarrow> string option \<times> (path \<times> node) list" where
  "rm_children f [] tab = (None, tab)"
| "rm_children f (p # ps) tab =
     (case f p tab of
        (x, tab1) \<Rightarrow>
          (case rm_children f ps tab1 of
             (y, tab2) \<Rightarrow> (if x = None then y else x, tab2)))"

primrec rimraf ::
  "path \<Rightarrow> nat \<Rightarrow> path \<Rightarrow> (path \<times> node) list \<Rightarrow> string option \<times> (path \<times> node) list" where
  "rimraf wd 0 = (\<lambda>p tab. (Some ''ELOOP'', tab))"
| "rimraf wd (Suc fuel) = (\<lambda>p tab.
     forgive
       (case locate tab wd p False of
          Inl c \<Rightarrow> (Some c, tab)
        | Inr (loc, n) \<Rightarrow>
            if n \<noteq> Folder then sys_unlink wd p tab
            else
              (case sys_rmdir wd p tab of
                 (None, tab1) \<Rightarrow> (None, tab1)
               | (Some c, tab1) \<Rightarrow>
                   if c = ''ENOTDIR'' then (None, tab1)
                   else if c = ''ENOTEMPTY'' \<or> c = ''EEXIST'' \<or> c = ''EPERM'' then
                     (case rm_children (rimraf wd fuel)
                             (map (\<lambda>f. p @ ''/'' @ dirent_name f) (children (spot loc) tab))
                             tab of
                        (Some c', tab2) \<Rightarrow> (Some c', tab2)
                      | (None, tab2) \<Rightarrow> sys_rmdir wd p tab2)
                   else (Some c, tab1))))"

text \<open>
  \<open>FS.realpath\<close> after Node's own algorithm: the path, already resolved with
  \<open>Path.resolve\<close>, is walked component by component with \<open>lstat\<close>; at a symbolic link
  the link is checked with \<open>stat\<close>, its target is resolved with \<open>Path.resolve\<close> against
  the directory that holds the link, the rest of the path is appended, and the walk starts
  over from the root.
\<close>

fun real_walk :: "(path \<times> node) list \<Rightarrow> nat \<Rightarrow> string list \<Rightarrow> string list \<Rightarrow> string + string list" where
  "real_walk tab fuel cur [] = Inr cur"
| "real_walk tab fuel cur (c # cs) =
     (case map_of tab (spot (cur @ [c])) of
        None \<Rightarrow> Inl ''ENOENT''
      | Some n \<Rightarrow>
          (case n of
             Folder \<Rightarrow> real_walk tab fuel (cur @ [c]) cs
           | Symlink t \<Rightarrow>
               (case namei tab 40 [] (cur @ [c]) True of
                  Inl e \<Rightarrow> Inl e
                | Inr loc \<Rightarrow>
                    (case fuel of
                       0 \<Rightarrow> Inl ''ELOOP''
                     | Suc f \<Rightarrow>
                         real_walk tab f []
                           (steps (path_resolve (path_resolve (spot cur) [t]) [join_sep cs]))))
           | Regular \<Rightarrow> if cs = [] then Inr (cur @ [c]) else Inl ''ENOTDIR''
           | Sock \<Rightarrow> if cs = [] then Inr (cur @ [c]) else Inl ''ENOTDIR''))"

text \<open>
  The four primitives. \<open>FS.realpath\<close> resolves its argument with \<open>Path.resolve\<close> first.
  \<open>FS.readdir\<close> follows a link in the last component. \<open>FS.rm\<close> first checks its options
  against \<open>lstat\<close>: a missing path is no error under \<open>force\<close>, a directory is one without
  \<open>recursive\<close>. The faults are injected per primitive, at the location the path names.
\<close>

definition disk_realpath :: "path \<Rightarrow> path \<Rightarrow> disk \<Rightarrow> errno_exception + path" where
  "disk_realpath wd p d =
     (case real_walk (nodes d) 40 [] (steps (path_resolve wd [p])) of
        Inl c \<Rightarrow> Inl (errno c)
      | Inr loc \<Rightarrow> Inr (spot loc))"

definition disk_readdir :: "path \<Rightarrow> path \<Rightarrow> disk \<Rightarrow> errno_exception + Dirent list" where
  "disk_readdir wd p d =
     (case locate (nodes d) wd p True of
        Inl c \<Rightarrow> Inl (errno c)
      | Inr (loc, n) \<Rightarrow>
          (case map_of (readdir_faults d) (spot loc) of
             Some c \<Rightarrow> Inl (errno c)
           | None \<Rightarrow>
               if n = Folder then Inr (children (spot loc) (nodes d))
               else Inl (errno ''ENOTDIR'')))"

definition disk_unlink :: "path \<Rightarrow> path \<Rightarrow> disk \<Rightarrow> Exception \<times> disk" where
  "disk_unlink wd p d =
     (case walk_to (nodes d) wd p False of
        Inl c \<Rightarrow> (Some (errno c), d)
      | Inr (loc, n) \<Rightarrow>
          (case map_of (unlink_faults d) (spot loc) of
             Some c \<Rightarrow> (Some (errno c), d)
           | None \<Rightarrow>
               (case sys_unlink wd p (nodes d) of
                  (x, tab) \<Rightarrow> (map_option errno x, d\<lparr> nodes := tab \<rparr>))))"

definition disk_rm :: "path \<Rightarrow> path \<Rightarrow> rm_options \<Rightarrow> disk \<Rightarrow> Exception \<times> disk" where
  "disk_rm wd p opts d =
     (case locate (nodes d) wd p False of
        Inl c \<Rightarrow> if c = ''ENOENT'' \<and> force opts then (None, d) else (Some (errno c), d)
      | Inr (loc, n) \<Rightarrow>
          (case map_of (rm_faults d) (spot loc) of
             Some c \<Rightarrow> (Some (errno c), d)
           | None \<Rightarrow>
               if n = Folder \<and> \<not> recursive opts then (Some (errno ''ERR_FS_EISDIR''), d)
               else
                 (case rimraf wd (Suc (length (nodes d))) p (nodes d) of
                    (x, tab) \<Rightarrow> (map_option errno x, d\<lparr> nodes := tab \<rparr>))))"

definition disk_platform :: "path \<Rightarrow> disk platform" where
  "disk_platform wd =
     \<lparr> realpath = disk_realpath wd, readdir = disk_readdir wd,
       unlink = disk_unlink wd, rm = disk_rm wd, cwd = wd \<rparr>"

definition plain_disk :: "(path \<times> node) list \<Rightarrow> disk" where
  "plain_disk tab = \<lparr> nodes = tab, unlink_faults = [], readdir_faults = [], rm_faults = [] \<rparr>"

text \<open>The tree of the mixed-content scenario, with the link pointing out of the tree.\<close>

definition mixed_disk :: disk where
  "mixed_disk = plain_disk
     [(''/root'', Folder), (''/root/a.txt'', Regular), (''/root/b'', Folder),
      (''/root/b/c.txt'', Regular), (''/root/d'', Symlink ''/elsewhere''),
      (''/elsewhere'', Folder), (''/elsewhere/keep'', Regular)]"

text \<open>Further trees: a target that cannot be listed, a leaf that cannot be unlinked, a
  link whose target is gone, a subdirectory that cannot be listed, and a link that points
  into the tree.\<close>

definition locked_disk :: disk where
  "locked_disk = (plain_disk [(''/locked'', Folder), (''/locked/x'', Regular)])
     \<lparr> readdir_faults := [(''/locked'', ''EACCES'')] \<rparr>"

definition busy_disk :: disk where
  "busy_disk = (plain_disk [(''/root'', Folder), (''/root/a.txt'', Regular)])
     \<lparr> unlink_faults := [(''/root/a.txt'', ''EBUSY'')] \<rparr>"

definition dangling_disk :: disk where
  "dangling_disk = plain_disk [(''/root'', Folder), (''/root/d'', Symlink ''/gone'')]"

definition sealed_disk :: disk where
  "sealed_disk = (plain_disk [(''/root'', Folder), (''/root/a.txt'', Regular),
                              (''/root/b'', Folder), (''/root/b/c.txt'', Regular)])
     \<lparr> readdir_faults := [(''/root/b'', ''EACCES'')] \<rparr>"


definition leaf :: "string \<Rightarrow> path \<Rightarrow> dirent_type \<Rightarrow> Descriptor" where
  "leaf n p ty =
     \<lparr> name = n, path = p,
       properties = \<lparr> file = (ty = DT_FILE), directory = (ty = DT_DIR),
                      socket = (ty = DT_SOCKET), symbolic = (ty = DT_LINK) \<rparr> \<rparr>"

subsection \<open>Notions of the specification\<close>

text \<open>
  What \<open>Remove\<close> does on an existing target before its first call of \<open>clean\<close>, when
  the listing of the target hands its callback \<open>x\<close>.
\<close>

definition head_trace :: "'s platform \<Rightarrow> path \<Rightarrow> 's \<Rightarrow> event list" where
  "head_trace fs target s =
     [Realpath target (exception_of (realpath fs target s)), Debug_found, Stdout_newline,
      Debug_removing (path_resolve (cwd fs) [target]),
      Readdir target (exception_of (readdir fs target s))]"


text \<open>
  What a call of \<open>clean\<close> appends when it ends: \<open>Clean_settled\<close> if its promise
  resolved, nothing otherwise.
\<close>

definition closing :: "path \<Rightarrow> unit settled \<Rightarrow> event list" where
  "closing p r = (if r = Resolved () then [Clean_settled p] else [])"

text \<open>
  A failed listing is fatal in a run that ended with \<open>r\<close> and did \<open>t\<close>: it is the last
  thing the run did, and the run ended with the listing's exception uncaught.
\<close>

definition fatal_listing :: "unit settled \<Rightarrow> event list \<Rightarrow> bool" where
  "fatal_listing r t =
     (\<forall>p e. Readdir p (Some e) \<in> set t \<longrightarrow> r = Uncaught e \<and> last t = Readdir p (Some e))"

text \<open>
  The events a call of \<open>clean\<close> can produce: probes, listings, unlinks, the forced
  non-recursive \<open>rm\<close>, the debug line of a leaf, and the brackets of the calls.
\<close>

fun walker_event :: "event \<Rightarrow> bool" where
  "walker_event (Rm p opts x) = (opts = forced)"
| "walker_event (Warning x) = False"
| "walker_event Debug_found = False"
| "walker_event Stdout_newline = False"
| "walker_event e = True"

text \<open>The filesystem and the trace that the run on \<open>mixed_disk\<close> leaves.\<close>

definition elsewhere_disk :: disk where
  "elsewhere_disk = plain_disk [(''/elsewhere'', Folder), (''/elsewhere/keep'', Regular)]"

definition mixed_trace :: "event list" where
  "mixed_trace =
     [Realpath ''/root'' None, Debug_found, Stdout_newline,
      Debug_removing ''/root'', Readdir ''/root'' None,
      Clean_called ''/root/a.txt'', Realpath ''/root/a.txt'' None,
      Debug_removing ''/root/a.txt'', Unlink ''/root/a.txt'' None,
      Clean_settled ''/root/a.txt'', Clean_called ''/root/b'',
      Readdir ''/root/b'' None, Clean_called ''/root/b/c.txt'',
      Realpath ''/root/b/c.txt'' None, Debug_removing ''/root/b/c.txt'',
      Unlink ''/root/b/c.txt'' None, Clean_settled ''/root/b/c.txt'',
      Clean_settled ''/root/b'', Clean_called ''/root/d'',
      Realpath ''/root/d'' None, Debug_removing ''/root/d'',
      Unlink ''/root/d'' None, Clean_settled ''/root/d'',
      Rm ''/root'' purge_options None, Stdout_newline]"

text \<open>The same for \<open>sealed_disk\<close>, whose walk stops at the listing of \<open>/root/b\<close>.\<close>

definition sealed_left :: disk where
  "sealed_left = (plain_disk [(''/root'', Folder), (''/root/b'', Folder), (''/root/b/c.txt'', Regular)])
     \<lparr> readdir_faults := [(''/root/b'', ''EACCES'')] \<rparr>"

definition sealed_trace :: "event list" where
  "sealed_trace =
     [Realpath ''/root'' None, Debug_found, Stdout_newline,
      Debug_removing ''/root'', Readdir ''/root'' None,
      Clean_called ''/root/a.txt'', Realpath ''/root/a.txt'' None,
      Debug_removing ''/root/a.txt'', Unlink ''/root/a.txt'' None,
      Clean_settled ''/root/a.txt'', Clean_called ''/root/b'',
      Readdir ''/root/b'' (Some (errno ''EACCES''))]"



text \<open>What the small filesystem holds at a location.\<close>

definition lookup :: "disk \<Rightarrow> path \<Rightarrow> node option" where
  "lookup d q = map_of (nodes d) q"

text \<open>The purge is the \<open>rm\<close> with \<open>recursive\<close> set.\<close>

fun is_purge :: "event \<Rightarrow> bool" where
  "is_purge (Rm p opts x) = recursive opts"
| "is_purge e = False"

text \<open>
  The order of a trace. \<open>ordered active purged t\<close> reads \<open>t\<close> from the left with the
  stack \<open>active\<close> of the calls of \<open>clean\<close> that have not settled and the flag \<open>purged\<close>,
  set by a recursive \<open>rm\<close>. It gives \<open>None\<close> when a call settles that is not the latest
  unsettled one, when a recursive \<open>rm\<close> is issued while a call is unsettled or a second
  time, or when a call of \<open>clean\<close> or of a primitive follows a recursive \<open>rm\<close>;
  otherwise it gives the stack and the flag at the end of \<open>t\<close>.
\<close>

fun ordered :: "path list \<Rightarrow> bool \<Rightarrow> event list \<Rightarrow> (path list \<times> bool) option" where
  "ordered active purged [] = Some (active, purged)"
| "ordered active purged (Clean_called p # es) =
     (if purged then None else ordered (p # active) purged es)"
| "ordered active purged (Clean_settled p # es) =
     (case active of
        [] \<Rightarrow> None
      | q # rest \<Rightarrow> if q = p then ordered rest purged es else None)"
| "ordered active purged (Rm p opts x # es) =
     (if purged then None
      else if recursive opts then (if active = [] then ordered active True es else None)
      else ordered active purged es)"
| "ordered active purged (Realpath p x # es) = (if purged then None else ordered active purged es)"
| "ordered active purged (Readdir p x # es) = (if purged then None else ordered active purged es)"
| "ordered active purged (Unlink p x # es) = (if purged then None else ordered active purged es)"
| "ordered active purged (e # es) = ordered active purged es"

text \<open>
  A run that ended with \<open>r\<close> kept the order: from any stack it leaves the stack as it
  found it when it resolved, and with more calls on it when it did not.
\<close>

definition nested :: "unit settled \<Rightarrow> event list \<Rightarrow> bool" where
  "nested r t =
     (\<forall>active. \<exists>extra. ordered active False t = Some (extra @ active, False)
                        \<and> (r = Resolved () \<longleftrightarrow> extra = []))"



text \<open>
  The runs of a loop \<open>for await (const x of xs) await body(x)\<close> from the state \<open>s\<close>, one
  run for each element that was reached, in the order of \<open>xs\<close>: every run starts in the
  state that the run before it left, and only when that run resolved. \<open>trace_of\<close> is what
  the runs did, one after the other, and \<open>left_by\<close> the state that the last of them left.
\<close>

fun in_turn ::
  "('a \<Rightarrow> ('s, unit) task) \<Rightarrow> 'a list \<Rightarrow> 's \<Rightarrow> (unit settled \<times> 's \<times> event list) list \<Rightarrow> bool" where
  "in_turn body [] s runs = (runs = [])"
| "in_turn body (x # xs) s runs =
     (case runs of
        [] \<Rightarrow> False
      | (r, s1, t1) # rest \<Rightarrow>
          body x s = Some (r, s1, t1)
          \<and> (if r = Resolved () then in_turn body xs s1 rest else rest = []))"

definition all_resolved :: "(unit settled \<times> 's \<times> event list) list \<Rightarrow> bool" where
  "all_resolved runs = list_all (\<lambda>run. fst run = Resolved ()) runs"

definition trace_of :: "(unit settled \<times> 's \<times> event list) list \<Rightarrow> event list" where
  "trace_of runs = concat (map (\<lambda>run. snd (snd run)) runs)"

definition left_by :: "'s \<Rightarrow> (unit settled \<times> 's \<times> event list) list \<Rightarrow> 's" where
  "left_by s runs = (if runs = [] then s else fst (snd (last runs)))"

text \<open>
  Symbolic links on the way to a location of the small filesystem. \<open>not_link tab loc\<close>:
  the table holds no symbolic link at \<open>loc\<close>. \<open>link_free tab cur cs\<close>: it holds none at
  any of the locations passed when the names \<open>cs\<close> are followed from \<open>cur\<close>.
  \<open>plain_route d p\<close>: no directory component of the absolute normalised path \<open>p\<close> is a
  symbolic link (\<open>p\<close> itself may be one); \<open>plain_path d p\<close>: neither is \<open>p\<close> itself.
\<close>

definition not_link :: "(path \<times> node) list \<Rightarrow> string list \<Rightarrow> bool" where
  "not_link tab loc = (case map_of tab (spot loc) of Some (Symlink t) \<Rightarrow> False | _ \<Rightarrow> True)"

fun link_free :: "(path \<times> node) list \<Rightarrow> string list \<Rightarrow> string list \<Rightarrow> bool" where
  "link_free tab cur [] = True"
| "link_free tab cur (c # cs) = (not_link tab (cur @ [c]) \<and> link_free tab (cur @ [c]) cs)"

definition plain_route :: "disk \<Rightarrow> path \<Rightarrow> bool" where
  "plain_route d p = link_free (nodes d) [] (butlast (components p))"

definition plain_path :: "disk \<Rightarrow> path \<Rightarrow> bool" where
  "plain_path d p = link_free (nodes d) [] (components p)"





definition detour_disk :: disk where
  "detour_disk = plain_disk
     [(''/l'', Symlink ''a/../b''), (''/a'', Symlink ''/c/d''), (''/b'', Folder), (''/b/x'', Folder),
      (''/c'', Folder), (''/c/d'', Folder), (''/c/b'', Folder), (''/c/b/x'', Folder)]"




text \<open>What a call of \<open>clean\<close> on the directory \<open>/root/b\<close> of \<open>mixed_disk\<close> leaves and does.\<close>

definition emptied_disk :: disk where
  "emptied_disk = plain_disk
     [(''/root'', Folder), (''/root/a.txt'', Regular), (''/root/b'', Folder),
      (''/root/d'', Symlink ''/elsewhere''), (''/elsewhere'', Folder), (''/elsewhere/keep'', Regular)]"

definition emptied_trace :: "event list" where
  "emptied_trace =
     [Clean_called ''/root/b'', Readdir ''/root/b'' None,
      Clean_called ''/root/b/c.txt'', Realpath ''/root/b/c.txt'' None,
      Debug_removing ''/root/b/c.txt'', Unlink ''/root/b/c.txt'' None,
      Clean_settled ''/root/b/c.txt'', Clean_settled ''/root/b'']"

text \<open>A target that is itself a link to a directory elsewhere.\<close>

definition linked_disk :: disk where
  "linked_disk = plain_disk
     [(''/link'', Symlink ''/elsewhere''), (''/elsewhere'', Folder), (''/elsewhere/keep'', Regular)]"

section \<open>Unfolding the model\<close>

declare for_await.simps [simp del]
declare clean.simps [simp del]

lemma for_await_Nil: "for_await body [] s = Some (Resolved (), s, [])"
  by (simp add: for_await.simps done_with_def)

lemma for_await_Cons:
  "for_await body (x # xs) s =
     (case body x s of
        None \<Rightarrow> None
      | Some (r, s1, t1) \<Rightarrow>
          if r = Resolved ()
          then (case for_await body xs s1 of
                  None \<Rightarrow> None
                | Some (r2, s2, t2) \<Rightarrow> Some (r2, s2, t1 @ t2))
          else Some (r, s1, t1))"
  by (simp add: for_await.simps await_def split: option.splits prod.splits settled.splits)

lemma clean_leaf_unfold:
  "clean_leaf fs d s =
     (if probe fs (path d) s
      then (case unlink fs (path d) s of
              (None, s1) \<Rightarrow>
                Some (Resolved (), s1,
                      [Realpath (path d) (exception_of (realpath fs (path d) s)),
                       Debug_removing (path d), Unlink (path d) None])
            | (Some e, s1) \<Rightarrow>
                Some (Resolved (), snd (rm fs (path d) forced s1),
                      [Realpath (path d) (exception_of (realpath fs (path d) s)),
                       Debug_removing (path d), Unlink (path d) (Some e),
                       Rm (path d) forced (fst (rm fs (path d) forced s1))]))
      else Some (Pending, s,
                 [Realpath (path d) (exception_of (realpath fs (path d) s)),
                  Debug_removing (path d)]))"
  by (simp add: clean_leaf_def await_def valid_def emit_def unlink_callback_def truthy_def
      split: prod.splits option.splits)

lemma settle_unfold:
  "settle p body s =
     (case body s of
        None \<Rightarrow> None
      | Some (r, s1, t1) \<Rightarrow> Some (r, s1, Clean_called p # t1 @ closing p r))"
  by (simp add: settle_def await_def emit_def closing_def
      split: option.splits prod.splits settled.splits)

lemma clean_0: "clean fs 0 d s = None"
  by (simp add: clean.simps)

lemma clean_Suc_leaf:
  "\<not> directory (properties d) \<Longrightarrow>
   clean fs (Suc fuel) d s =
     (case clean_leaf fs d s of
        None \<Rightarrow> None
      | Some (r, s1, t1) \<Rightarrow> Some (r, s1, Clean_called (path d) # t1 @ closing (path d) r))"
  by (simp add: clean.simps settle_unfold)

lemma clean_Suc_directory:
  "directory (properties d) \<Longrightarrow>
   clean fs (Suc fuel) d s =
     (case readdir fs (path d) s of
        Inl e \<Rightarrow> Some (Uncaught e, s, [Clean_called (path d), Readdir (path d) (Some e)])
      | Inr files \<Rightarrow>
          (case for_await (clean fs fuel) (remap fs (path d) files) s of
             None \<Rightarrow> None
           | Some (r, s1, t1) \<Rightarrow>
               Some (r, s1,
                     Clean_called (path d) # Readdir (path d) None # t1 @ closing (path d) r)))"
  by (simp add: clean.simps settle_unfold await_def descriptors_def closing_def
      split: sum.splits option.splits prod.splits settled.splits)

lemma Remove_absent:
  "\<not> probe fs target s \<Longrightarrow>
   Remove fs fuel target s =
     Some (Resolved (), s, [Realpath target (exception_of (realpath fs target s)), Stdout_newline])"
  by (simp add: Remove_def await_def try_catch_def valid_def done_with_def emit_def)

lemma Remove_unlistable:
  "probe fs target s \<Longrightarrow> readdir fs target s = Inl e \<Longrightarrow>
   Remove fs fuel target s = Some (Uncaught e, s, head_trace fs target s)"
  by (simp add: Remove_def await_def try_catch_def valid_def emit_def descriptors_def
      head_trace_def exception_of_def)

lemma Remove_listed:
  "probe fs target s \<Longrightarrow> readdir fs target s = Inr files \<Longrightarrow>
   Remove fs fuel target s =
     (case for_await (clean fs fuel) (remap fs target files) s of
        None \<Rightarrow> None
      | Some (r, s1, t1) \<Rightarrow>
          (case r of
             Resolved u \<Rightarrow>
               (case rm fs target purge_options s1 of
                  (None, s2) \<Rightarrow>
                    Some (Resolved (), s2,
                          head_trace fs target s @ t1 @
                          [Rm target purge_options None, Stdout_newline])
                | (Some e, s2) \<Rightarrow>
                    Some (Uncaught e, s2,
                          head_trace fs target s @ t1 @ [Rm target purge_options (Some e)]))
           | Rejected e \<Rightarrow> Some (Rejected e, s1, head_trace fs target s @ t1)
           | Uncaught e \<Rightarrow> Some (Uncaught e, s1, head_trace fs target s @ t1)
           | Pending \<Rightarrow> Some (Pending, s1, head_trace fs target s @ t1)))"
  by (simp add: Remove_def await_def try_catch_def valid_def emit_def descriptors_def
      head_trace_def finalize_def throw_def exception_of_def
      split: option.splits prod.splits settled.splits)

section \<open>Induction over the walk\<close>

text \<open>
  A property of how a run ended and what it did holds of every loop over \<open>body\<close> when it
  holds of every call of \<open>body\<close>, of the empty run, and is kept by running a second part
  after a first part that resolved.
\<close>

lemma for_await_lift:
  assumes body: "\<And>x s r s' t. x \<in> set xs \<Longrightarrow> body x s = Some (r, s', t) \<Longrightarrow> P r t"
    and nil: "P (Resolved ()) []"
    and seq: "\<And>t1 r t2. P (Resolved ()) t1 \<Longrightarrow> P r t2 \<Longrightarrow> P r (t1 @ t2)"
    and run: "for_await body xs s = Some (r, s', t)"
  shows "P r t"
  using body run
proof (induction xs arbitrary: s r s' t)
  case Nil
  then show ?case using nil by (simp add: for_await_Nil)
next
  case (Cons x xs)
  from Cons.prems(2) obtain r1 s1 t1 where b: "body x s = Some (r1, s1, t1)"
    by (auto simp: for_await_Cons split: option.splits)
  have p1: "P r1 t1" by (rule Cons.prems(1) [OF _ b]) simp
  show ?case
  proof (cases "r1 = Resolved ()")
    case True
    with Cons.prems(2) b obtain t2 where
      rest: "for_await body xs s1 = Some (r, s', t2)" and t: "t = t1 @ t2"
      by (auto simp: for_await_Cons split: option.splits)
    have "P r t2"
    proof (rule Cons.IH [OF _ rest])
      fix y s r s' t
      assume "y \<in> set xs" and "body y s = Some (r, s', t)"
      then show "P r t" using Cons.prems(1) [of y s r s' t] by simp
    qed
    with p1 True t show ?thesis using seq by simp
  next
    case False
    with Cons.prems(2) b p1 show ?thesis by (simp add: for_await_Cons)
  qed
qed

lemma clean_lift:
  assumes leafc: "\<And>d s r s' t. \<not> directory (properties d) \<Longrightarrow> clean_leaf fs d s = Some (r, s', t)
                   \<Longrightarrow> P r (Clean_called (path d) # t @ closing (path d) r)"
    and failc: "\<And>(d::Descriptor) e. P (Uncaught e) [Clean_called (path d), Readdir (path d) (Some e)]"
    and dirc: "\<And>(d::Descriptor) r t. P r t \<Longrightarrow>
                 P r (Clean_called (path d) # Readdir (path d) None # t @ closing (path d) r)"
    and nil: "P (Resolved ()) []"
    and seq: "\<And>t1 r t2. P (Resolved ()) t1 \<Longrightarrow> P r t2 \<Longrightarrow> P r (t1 @ t2)"
    and run: "clean fs fuel d s = Some (r, s', t)"
  shows "P r t"
  using run
proof (induction fuel arbitrary: d s r s' t)
  case 0
  then show ?case by (simp add: clean_0)
next
  case (Suc fuel)
  show ?case
  proof (cases "directory (properties d)")
    case False
    from Suc.prems obtain t1 where "clean_leaf fs d s = Some (r, s', t1)"
      and "t = Clean_called (path d) # t1 @ closing (path d) r"
      unfolding clean_Suc_leaf [OF False] by (auto split: option.splits)
    with False show ?thesis using leafc by simp
  next
    case True
    show ?thesis
    proof (cases "readdir fs (path d) s")
      case (Inl e)
      with Suc.prems have "r = Uncaught e"
        and "t = [Clean_called (path d), Readdir (path d) (Some e)]"
        unfolding clean_Suc_directory [OF True] by auto
      then show ?thesis by (simp add: failc)
    next
      case (Inr files)
      with Suc.prems obtain t1 where
        loop: "for_await (clean fs fuel) (remap fs (path d) files) s = Some (r, s', t1)"
        and t: "t = Clean_called (path d) # Readdir (path d) None # t1 @ closing (path d) r"
        unfolding clean_Suc_directory [OF True] by (auto split: option.splits)
      have "P r t1"
      proof (rule for_await_lift [where P = P and body = "clean fs fuel"
              and xs = "remap fs (path d) files", OF _ nil _ loop])
        fix x s r s' t
        assume "clean fs fuel x s = Some (r, s', t)"
        then show "P r t" by (rule Suc.IH)
      next
        fix t1 r t2
        assume "P (Resolved ()) t1" and "P r t2"
        then show "P r (t1 @ t2)" by (rule seq)
      qed
      with t show ?thesis using dirc by simp
    qed
  qed
qed

text \<open>The same for the loop over \<open>clean\<close> that \<open>Remove\<close> and a directory run.\<close>

lemma walk_lift:
  assumes leafc: "\<And>d s r s' t. \<not> directory (properties d) \<Longrightarrow> clean_leaf fs d s = Some (r, s', t)
                   \<Longrightarrow> P r (Clean_called (path d) # t @ closing (path d) r)"
    and failc: "\<And>(d::Descriptor) e. P (Uncaught e) [Clean_called (path d), Readdir (path d) (Some e)]"
    and dirc: "\<And>(d::Descriptor) r t. P r t \<Longrightarrow>
                 P r (Clean_called (path d) # Readdir (path d) None # t @ closing (path d) r)"
    and nil: "P (Resolved ()) []"
    and seq: "\<And>t1 r t2. P (Resolved ()) t1 \<Longrightarrow> P r t2 \<Longrightarrow> P r (t1 @ t2)"
    and run: "for_await (clean fs fuel) ds s = Some (r, s', t)"
  shows "P r t"
proof (rule for_await_lift [where P = P and body = "clean fs fuel" and xs = ds, OF _ nil _ run])
  fix x s r s' t
  assume c: "clean fs fuel x s = Some (r, s', t)"
  show "P r t"
  proof (rule clean_lift [where P = P and fs = fs, OF _ _ _ nil _ c])
    show "\<And>d s r s' t. \<not> directory (properties d) \<Longrightarrow> clean_leaf fs d s = Some (r, s', t)
            \<Longrightarrow> P r (Clean_called (path d) # t @ closing (path d) r)"
      by (rule leafc)
    show "\<And>(d::Descriptor) e. P (Uncaught e) [Clean_called (path d), Readdir (path d) (Some e)]"
      by (rule failc)
    show "\<And>(d::Descriptor) r t. P r t \<Longrightarrow>
            P r (Clean_called (path d) # Readdir (path d) None # t @ closing (path d) r)"
      by (rule dirc)
    show "\<And>t1 r t2. P (Resolved ()) t1 \<Longrightarrow> P r t2 \<Longrightarrow> P r (t1 @ t2)"
      by (rule seq)
  qed
next
  fix t1 r t2
  assume "P (Resolved ()) t1" and "P r t2"
  then show "P r (t1 @ t2)" by (rule seq)
qed

section \<open>Facts about the walk\<close>

lemma fatal_listing_seq:
  assumes a: "fatal_listing (Resolved ()) t1" and b: "fatal_listing r t2"
  shows "fatal_listing r (t1 @ t2)"
  unfolding fatal_listing_def
proof (intro allI impI)
  fix p e
  assume m: "Readdir p (Some e) \<in> set (t1 @ t2)"
  from a have "Readdir p (Some e) \<notin> set t1" by (auto simp: fatal_listing_def)
  with m have m2: "Readdir p (Some e) \<in> set t2" by simp
  then have "t2 \<noteq> []" by auto
  with b m2 show "r = Uncaught e \<and> last (t1 @ t2) = Readdir p (Some e)"
    by (simp add: fatal_listing_def)
qed

lemma walk_fatal_listing:
  assumes "for_await (clean fs fuel) ds s = Some (r, s', t)"
  shows "fatal_listing r t"
proof (rule walk_lift [where P = fatal_listing, OF _ _ _ _ _ assms])
  show "\<And>d s r s' t. \<not> directory (properties d) \<Longrightarrow> clean_leaf fs d s = Some (r, s', t)
          \<Longrightarrow> fatal_listing r (Clean_called (path d) # t @ closing (path d) r)"
    by (auto simp: clean_leaf_unfold fatal_listing_def closing_def
        split: if_splits prod.splits option.splits)
  show "\<And>(d::Descriptor) e. fatal_listing (Uncaught e) [Clean_called (path d), Readdir (path d) (Some e)]"
    by (simp add: fatal_listing_def)
  show "\<And>(d::Descriptor) r t. fatal_listing r t \<Longrightarrow>
          fatal_listing r (Clean_called (path d) # Readdir (path d) None # t @ closing (path d) r)"
    by (auto simp: fatal_listing_def closing_def)
  show "fatal_listing (Resolved ()) []" by (simp add: fatal_listing_def)
  show "\<And>t1 r t2. fatal_listing (Resolved ()) t1 \<Longrightarrow> fatal_listing r t2 \<Longrightarrow> fatal_listing r (t1 @ t2)"
    by (rule fatal_listing_seq)
qed

lemma walk_events:
  assumes "for_await (clean fs fuel) ds s = Some (r, s', t)"
  shows "\<forall>e \<in> set t. walker_event e"
proof (rule walk_lift [where P = "\<lambda>r t. \<forall>e \<in> set t. walker_event e", OF _ _ _ _ _ assms])
  show "\<And>d s r s' t. \<not> directory (properties d) \<Longrightarrow> clean_leaf fs d s = Some (r, s', t)
          \<Longrightarrow> \<forall>e \<in> set (Clean_called (path d) # t @ closing (path d) r). walker_event e"
    by (auto simp: clean_leaf_unfold closing_def split: if_splits prod.splits option.splits)
qed (auto simp: closing_def)

lemma walk_not_rejected:
  assumes "for_await (clean fs fuel) ds s = Some (r, s', t)"
  shows "\<forall>e. r \<noteq> Rejected e"
proof (rule walk_lift [where P = "\<lambda>r t. \<forall>e. r \<noteq> Rejected e", OF _ _ _ _ _ assms])
  show "\<And>d s r s' t. \<not> directory (properties d) \<Longrightarrow> clean_leaf fs d s = Some (r, s', t)
          \<Longrightarrow> \<forall>e. r \<noteq> Rejected e"
    by (auto simp: clean_leaf_unfold split: if_splits prod.splits option.splits)
qed auto

text \<open>
  No run of \<open>Remove\<close> ends by rejecting its promise: the \<open>catch\<close> of \<open>Remove\<close>, which
  would rethrow to the caller, is never entered.
\<close>

lemma Remove_never_rejects:
  assumes "Remove fs fuel target s = Some (r, s', t)"
  shows "r \<noteq> Rejected e"
proof (cases "probe fs target s")
  case False
  with assms show ?thesis by (auto simp: Remove_absent)
next
  case True
  show ?thesis
  proof (cases "readdir fs target s")
    case (Inl x)
    with True assms show ?thesis by (auto simp: Remove_unlistable)
  next
    case (Inr files)
    from assms obtain r1 s1 t1 where
      walk: "for_await (clean fs fuel) (remap fs target files) s = Some (r1, s1, t1)"
      by (auto simp: Remove_listed [OF True Inr] split: option.splits)
    from walk have "\<forall>e. r1 \<noteq> Rejected e" by (rule walk_not_rejected)
    with assms walk show ?thesis
      by (auto simp: Remove_listed [OF True Inr] split: settled.splits prod.splits option.splits)
  qed
qed

text \<open>
  The fuel only bounds the nesting of the calls: a run that fits in \<open>n\<close> is the same run
  with any larger bound.
\<close>

lemma for_await_mono:
  assumes "\<And>x s y. x \<in> set xs \<Longrightarrow> f x s = Some y \<Longrightarrow> g x s = Some y"
    and "for_await f xs s = Some y"
  shows "for_await g xs s = Some y"
  using assms
proof (induction xs arbitrary: s y)
  case Nil
  then show ?case by (simp add: for_await_Nil)
next
  case (Cons x xs)
  from Cons.prems(2) obtain r1 s1 t1 where f: "f x s = Some (r1, s1, t1)"
    by (auto simp: for_await_Cons split: option.splits)
  then have g: "g x s = Some (r1, s1, t1)" using Cons.prems(1) by simp
  show ?case
  proof (cases "r1 = Resolved ()")
    case True
    with Cons.prems(2) f obtain z where rest: "for_await f xs s1 = Some z"
      by (auto simp: for_await_Cons split: option.splits)
    have "for_await g xs s1 = Some z"
    proof (rule Cons.IH [OF _ rest])
      fix x' s y
      assume "x' \<in> set xs" and "f x' s = Some y"
      then show "g x' s = Some y" using Cons.prems(1) [of x' s y] by simp
    qed
    with Cons.prems(2) f g rest True show ?thesis by (simp add: for_await_Cons)
  next
    case False
    with Cons.prems(2) f have "y = (r1, s1, t1)" by (simp add: for_await_Cons)
    with False g show ?thesis by (simp add: for_await_Cons)
  qed
qed

lemma clean_more_fuel:
  "clean fs n d s = Some y \<Longrightarrow> n \<le> m \<Longrightarrow> clean fs m d s = Some y"
proof (induction n arbitrary: m d s y)
  case 0
  then show ?case by (simp add: clean_0)
next
  case (Suc n)
  from Suc.prems(2) obtain m' where m: "m = Suc m'" and le: "n \<le> m'" by (cases m) auto
  show ?case
  proof (cases "directory (properties d)")
    case False
    with Suc.prems(1) show ?thesis unfolding m by (simp add: clean_Suc_leaf)
  next
    case True
    show ?thesis
    proof (cases "readdir fs (path d) s")
      case (Inl e)
      with True Suc.prems(1) show ?thesis unfolding m by (simp add: clean_Suc_directory)
    next
      case (Inr files)
      with True Suc.prems(1) obtain z where
        loop: "for_await (clean fs n) (remap fs (path d) files) s = Some z"
        by (auto simp: clean_Suc_directory split: option.splits)
      have "for_await (clean fs m') (remap fs (path d) files) s = Some z"
      proof (rule for_await_mono [OF _ loop])
        fix x s y
        assume "clean fs n x s = Some y"
        then show "clean fs m' x s = Some y" using le by (rule Suc.IH)
      qed
      with True Inr Suc.prems(1) loop show ?thesis unfolding m by (simp add: clean_Suc_directory)
    qed
  qed
qed

lemma Remove_more_fuel:
  assumes "Remove fs n target s = Some y" and "n \<le> m"
  shows "Remove fs m target s = Some y"
proof (cases "probe fs target s")
  case False
  with assms show ?thesis by (simp add: Remove_absent)
next
  case True
  show ?thesis
  proof (cases "readdir fs target s")
    case (Inl x)
    with True assms show ?thesis by (simp add: Remove_unlistable)
  next
    case (Inr files)
    from assms(1) obtain z where
      loop: "for_await (clean fs n) (remap fs target files) s = Some z"
      by (auto simp: Remove_listed [OF True Inr] split: option.splits)
    have "for_await (clean fs m) (remap fs target files) s = Some z"
    proof (rule for_await_mono [OF _ loop])
      fix x s y
      assume "clean fs n x s = Some y"
      then show "clean fs m x s = Some y" using assms(2) by (rule clean_more_fuel)
    qed
    with assms(1) loop show ?thesis by (simp add: Remove_listed [OF True Inr])
  qed
qed

section \<open>The small filesystem\<close>

lemma mixed_run:
  "Remove (disk_platform ''/'') 2 ''/root'' mixed_disk = Some (Resolved (), elsewhere_disk, mixed_trace)"
  by code_simp

lemma sealed_run:
  "Remove (disk_platform ''/'') 2 ''/root'' sealed_disk =
     Some (Uncaught (errno ''EACCES''), sealed_left, sealed_trace)"
  by code_simp

lemma mixed_listing:
  "readdir (disk_platform ''/'') ''/root'' mixed_disk =
     Inr [Dirent ''a.txt'' DT_FILE, Dirent ''b'' DT_DIR, Dirent ''d'' DT_LINK]"
  by code_simp

lemma mixed_descriptors:
  "remap (disk_platform ''/'') ''/root'' [Dirent ''a.txt'' DT_FILE, Dirent ''b'' DT_DIR, Dirent ''d'' DT_LINK] =
     [leaf ''a.txt'' ''/root/a.txt'' DT_FILE, leaf ''b'' ''/root/b'' DT_DIR, leaf ''d'' ''/root/d'' DT_LINK]"
  by code_simp

section \<open>The claims\<close>

text \<open>
  Claim C6. When the probe of \<open>p\<close> gives false, \<open>Remove(p)\<close> returns, leaves the
  filesystem as it was, and has called nothing but the probe: no listing, no unlink, no
  \<open>rm\<close>. No call of \<open>clean\<close> is made, so this holds with no fuel at all.
\<close>

theorem Remove_absent_is_no_op:
  assumes "\<not> probe fs p s"
  shows "Remove fs fuel p s =
           Some (Resolved (), s, [Realpath p (exception_of (realpath fs p s)), Stdout_newline])"
  using assms by (rule Remove_absent)

theorem Remove_absent_is_no_op_witness:
  "\<not> probe (disk_platform ''/'') ''/nothing'' mixed_disk
   \<and> Remove (disk_platform ''/'') 0 ''/nothing'' mixed_disk =
       Some (Resolved (), mixed_disk, [Realpath ''/nothing'' (Some (errno ''ENOENT'')), Stdout_newline])"
proof -
  have a: "\<not> probe (disk_platform ''/'') ''/nothing'' mixed_disk" by code_simp
  have b: "exception_of (realpath (disk_platform ''/'') ''/nothing'' mixed_disk) = Some (errno ''ENOENT'')"
    by code_simp
  show ?thesis using Remove_absent_is_no_op [OF a, of 0] a b by simp
qed

text \<open>
  Claim C2. For a target that exists and whose listing fails with \<open>e\<close>, the run of
  \<open>Remove\<close> stops at the listing and the purge is not attempted. It does not end by
  rejecting the promise of \<open>Remove\<close>: \<open>e\<close> is thrown inside the callback of
  \<open>FS.readdir\<close>, so the run ends \<open>Uncaught e\<close> and the caller's \<open>await\<close> never receives
  the error.
\<close>

theorem top_level_listing_failure:
  assumes "probe fs target s" and "readdir fs target s = Inl e"
  shows "Remove fs fuel target s =
           Some (Uncaught e, s,
                 [Realpath target (exception_of (realpath fs target s)), Debug_found,
                  Stdout_newline, Debug_removing (path_resolve (cwd fs) [target]),
                  Readdir target (Some e)])"
  using assms by (simp add: Remove_unlistable head_trace_def exception_of_def)

theorem top_level_listing_failure_witness:
  "probe (disk_platform ''/'') ''/locked'' locked_disk
   \<and> readdir (disk_platform ''/'') ''/locked'' locked_disk = Inl (errno ''EACCES'')
   \<and> Remove (disk_platform ''/'') 1 ''/locked'' locked_disk =
       Some (Uncaught (errno ''EACCES''), locked_disk,
             [Realpath ''/locked'' None, Debug_found, Stdout_newline, Debug_removing ''/locked'',
              Readdir ''/locked'' (Some (errno ''EACCES''))])"
proof -
  have a: "probe (disk_platform ''/'') ''/locked'' locked_disk" by code_simp
  have b: "readdir (disk_platform ''/'') ''/locked'' locked_disk = Inl (errno ''EACCES'')"
    by code_simp
  have c: "exception_of (realpath (disk_platform ''/'') ''/locked'' locked_disk) = None"
    by code_simp
  have d: "path_resolve (cwd (disk_platform ''/'')) [''/locked''] = ''/locked''"
    by code_simp
  show ?thesis using top_level_listing_failure [OF a b, of 1] a b c d by simp
qed

text \<open>
  Claim C3. For a leaf that the probe finds and whose unlink fails with \<open>e\<close>, the call of
  \<open>clean\<close> issues the forced non-recursive \<open>rm\<close> once and resolves, whatever the code of
  \<open>e\<close> is; no warning is recorded. The test of the code is the assignment
  \<open>exception.code = "EPERM"\<close>, which is truthy for every exception.
\<close>

theorem unlink_failure_is_forced_for_every_code:
  assumes "\<not> directory (properties d)" and "probe fs (path d) s"
    and "unlink fs (path d) s = (Some e, s1)"
  shows "clean fs (Suc fuel) d s =
           Some (Resolved (), snd (rm fs (path d) forced s1),
                 [Clean_called (path d),
                  Realpath (path d) (exception_of (realpath fs (path d) s)),
                  Debug_removing (path d), Unlink (path d) (Some e),
                  Rm (path d) forced (fst (rm fs (path d) forced s1)),
                  Clean_settled (path d)])"
  using assms by (simp add: clean_Suc_leaf clean_leaf_unfold closing_def)

theorem unlink_failure_is_forced_for_every_code_witness:
  "\<not> directory (properties (leaf ''a.txt'' ''/root/a.txt'' DT_FILE))
   \<and> probe (disk_platform ''/'') ''/root/a.txt'' busy_disk
   \<and> unlink (disk_platform ''/'') ''/root/a.txt'' busy_disk = (Some (errno ''EBUSY''), busy_disk)
   \<and> clean (disk_platform ''/'') 1 (leaf ''a.txt'' ''/root/a.txt'' DT_FILE) busy_disk =
       Some (Resolved (), busy_disk\<lparr> nodes := [(''/root'', Folder)] \<rparr>,
             [Clean_called ''/root/a.txt'', Realpath ''/root/a.txt'' None,
              Debug_removing ''/root/a.txt'', Unlink ''/root/a.txt'' (Some (errno ''EBUSY'')),
              Rm ''/root/a.txt'' forced None, Clean_settled ''/root/a.txt''])"
proof -
  let ?d = "leaf ''a.txt'' ''/root/a.txt'' DT_FILE"
  have p: "path ?d = ''/root/a.txt''" by (simp add: leaf_def)
  have a: "\<not> directory (properties ?d)" by (simp add: leaf_def)
  have b: "probe (disk_platform ''/'') (path ?d) busy_disk" unfolding p by code_simp
  have c: "unlink (disk_platform ''/'') (path ?d) busy_disk = (Some (errno ''EBUSY''), busy_disk)"
    unfolding p by code_simp
  have e: "exception_of (realpath (disk_platform ''/'') ''/root/a.txt'' busy_disk) = None"
    by code_simp
  have f: "rm (disk_platform ''/'') ''/root/a.txt'' forced busy_disk =
             (None, busy_disk\<lparr> nodes := [(''/root'', Folder)] \<rparr>)"
    by code_simp
  show ?thesis
    using unlink_failure_is_forced_for_every_code [OF a b c, of 0] a b c e f by (simp add: p)
qed

text \<open>
  Claim C4. For a leaf whose path the probe does not find, the call of \<open>clean\<close> attempts
  no unlink, and its promise is never settled: \<open>resolve\<close> is called only from the callback
  of \<open>FS.unlink\<close>, which is not issued. The call does not complete.
\<close>

theorem missing_leaf_never_settles:
  assumes "\<not> directory (properties d)" and "\<not> probe fs (path d) s"
  shows "clean fs (Suc fuel) d s =
           Some (Pending, s,
                 [Clean_called (path d),
                  Realpath (path d) (exception_of (realpath fs (path d) s)),
                  Debug_removing (path d)])"
  using assms by (simp add: clean_Suc_leaf clean_leaf_unfold closing_def)

theorem missing_leaf_never_settles_witness:
  "\<not> directory (properties (leaf ''d'' ''/root/d'' DT_LINK))
   \<and> \<not> probe (disk_platform ''/'') ''/root/d'' dangling_disk
   \<and> clean (disk_platform ''/'') 1 (leaf ''d'' ''/root/d'' DT_LINK) dangling_disk =
       Some (Pending, dangling_disk,
             [Clean_called ''/root/d'', Realpath ''/root/d'' (Some (errno ''ENOENT'')),
              Debug_removing ''/root/d''])"
proof -
  let ?d = "leaf ''d'' ''/root/d'' DT_LINK"
  have p: "path ?d = ''/root/d''" by (simp add: leaf_def)
  have a: "\<not> directory (properties ?d)" by (simp add: leaf_def)
  have b: "\<not> probe (disk_platform ''/'') (path ?d) dangling_disk" unfolding p by code_simp
  have e: "exception_of (realpath (disk_platform ''/'') ''/root/d'' dangling_disk) = Some (errno ''ENOENT'')"
    by code_simp
  show ?thesis using missing_leaf_never_settles [OF a b, of 0] a b e by (simp add: p)
qed

text \<open>
  The same run seen from \<open>Remove\<close>: a directory that holds a link whose target is gone
  is listed, the walk never settles, and the purge is never reached.
\<close>

lemma dangling_run:
  "Remove (disk_platform ''/'') 1 ''/root'' dangling_disk =
     Some (Pending, dangling_disk,
           [Realpath ''/root'' None, Debug_found, Stdout_newline, Debug_removing ''/root'',
            Readdir ''/root'' None, Clean_called ''/root/d'',
            Realpath ''/root/d'' (Some (errno ''ENOENT'')), Debug_removing ''/root/d''])"
  by code_simp

text \<open>
  Claim C8, as amended. A listing that fails is fatal wherever in the walk it happens, at
  the top level or at a directory met in the recursion: it is the last thing the run of
  \<open>Remove\<close> does, the run ends with the listing's exception uncaught, no warning is
  recorded and the purge is not attempted.
\<close>

theorem listing_failure_is_fatal_at_every_depth:
  assumes "Remove fs fuel target s = Some (r, s', t)" and "Readdir p (Some e) \<in> set t"
  shows "r = Uncaught e \<and> last t = Readdir p (Some e)
         \<and> (\<forall>x. Warning x \<notin> set t) \<and> (\<forall>x. Rm target purge_options x \<notin> set t)"
proof (cases "probe fs target s")
  case False
  with assms show ?thesis by (auto simp: Remove_absent)
next
  case True
  show ?thesis
  proof (cases "readdir fs target s")
    case (Inl e')
    with True assms show ?thesis
      by (auto simp: Remove_unlistable head_trace_def exception_of_def)
  next
    case (Inr files)
    from assms(1) obtain r1 s1 t1 where
      walk: "for_await (clean fs fuel) (remap fs target files) s = Some (r1, s1, t1)"
      by (auto simp: Remove_listed [OF True Inr] split: option.splits)
    have fl: "fatal_listing r1 t1" using walk by (rule walk_fatal_listing)
    have ev: "\<forall>e \<in> set t1. walker_event e" using walk by (rule walk_events)
    have nw: "\<And>x. Warning x \<notin> set t1" using ev by fastforce
    have np: "\<And>x. Rm target purge_options x \<notin> set t1"
      using ev by (fastforce simp: forced_def purge_options_def)
    have hd: "head_trace fs target s =
        [Realpath target (exception_of (realpath fs target s)), Debug_found, Stdout_newline,
         Debug_removing (path_resolve (cwd fs) [target]), Readdir target None]"
      using Inr by (simp add: head_trace_def exception_of_def)
    have "r1 \<noteq> Resolved ()"
    proof
      assume res: "r1 = Resolved ()"
      with fl have "Readdir p (Some e) \<notin> set t1" by (auto simp: fatal_listing_def)
      with assms res walk show False
        by (auto simp: Remove_listed [OF True Inr] hd split: prod.splits option.splits)
    qed
    with assms(1) walk have r: "r = r1" and t: "t = head_trace fs target s @ t1"
      by (auto simp: Remove_listed [OF True Inr] split: settled.splits)
    from assms(2) t hd have m: "Readdir p (Some e) \<in> set t1" by auto
    then have ne: "t1 \<noteq> []" by auto
    from fl m have "r1 = Uncaught e" and "last t1 = Readdir p (Some e)"
      by (auto simp: fatal_listing_def)
    with r t ne nw np hd show ?thesis by auto
  qed
qed

theorem listing_failure_is_fatal_at_every_depth_witness:
  "Remove (disk_platform ''/'') 2 ''/root'' sealed_disk =
     Some (Uncaught (errno ''EACCES''), sealed_left, sealed_trace)
   \<and> Readdir ''/root/b'' (Some (errno ''EACCES'')) \<in> set sealed_trace
   \<and> last sealed_trace = Readdir ''/root/b'' (Some (errno ''EACCES''))
   \<and> (\<forall>x. Warning x \<notin> set sealed_trace)
   \<and> (\<forall>x. Rm ''/root'' purge_options x \<notin> set sealed_trace)"
proof -
  have m: "Readdir ''/root/b'' (Some (errno ''EACCES'')) \<in> set sealed_trace"
    by (simp add: sealed_trace_def)
  show ?thesis
    using listing_failure_is_fatal_at_every_depth [OF sealed_run m] sealed_run m by simp
qed

text \<open>
  Claim C8 as stated fails: the listing of \<open>/root/b\<close>, a directory met in the recursion,
  fails, and the run of \<open>Remove\<close> ends there with the exception uncaught: no warning is
  recorded, \<open>/root/b\<close> is not left to the purge, and the purge is not called.
\<close>

theorem mid_recursion_listing_failure_counterexample:
  "Remove (disk_platform ''/'') 2 ''/root'' sealed_disk =
     Some (Uncaught (errno ''EACCES''),
           (plain_disk [(''/root'', Folder), (''/root/b'', Folder), (''/root/b/c.txt'', Regular)])
             \<lparr> readdir_faults := [(''/root/b'', ''EACCES'')] \<rparr>,
           [Realpath ''/root'' None, Debug_found, Stdout_newline,
            Debug_removing ''/root'', Readdir ''/root'' None,
            Clean_called ''/root/a.txt'', Realpath ''/root/a.txt'' None,
            Debug_removing ''/root/a.txt'', Unlink ''/root/a.txt'' None,
            Clean_settled ''/root/a.txt'', Clean_called ''/root/b'',
            Readdir ''/root/b'' (Some (errno ''EACCES''))])"
  by code_simp

section \<open>The order of the walk and the purge\<close>

lemma ordered_append:
  "ordered active purged (t1 @ t2) =
     (case ordered active purged t1 of
        None \<Rightarrow> None
      | Some (a, p) \<Rightarrow> ordered a p t2)"
  by (induction active purged t1 rule: ordered.induct) (auto split: list.splits)

lemma ordered_after_purge:
  "ordered active True t = Some (a, p) \<Longrightarrow> p \<and> filter is_purge t = []"
proof (induction t arbitrary: active)
  case Nil
  then show ?case by simp
next
  case (Cons e t)
  from Cons.prems have "\<exists>rest. ordered rest True t = Some (a, p)"
    by (cases e) (auto split: list.splits if_splits)
  then obtain rest where "ordered rest True t = Some (a, p)" ..
  then have ih: "p \<and> filter is_purge t = []" by (rule Cons.IH)
  from Cons.prems have "\<not> is_purge e" by (cases e) auto
  with ih show ?case by simp
qed

lemma ordered_purges:
  "ordered active False t = Some (a, p) \<Longrightarrow> length (filter is_purge t) = (if p then 1 else 0)"
proof (induction t arbitrary: active)
  case Nil
  then show ?case by simp
next
  case (Cons e t)
  show ?case
  proof (cases "is_purge e")
    case True
    with Cons.prems have "ordered active True t = Some (a, p)"
      by (cases e) (auto split: if_splits)
    then have "p \<and> filter is_purge t = []" by (rule ordered_after_purge)
    with True show ?thesis by simp
  next
    case False
    with Cons.prems have "\<exists>rest. ordered rest False t = Some (a, p)"
      by (cases e) (auto split: list.splits if_splits)
    then obtain rest where "ordered rest False t = Some (a, p)" ..
    then have "length (filter is_purge t) = (if p then 1 else 0)" by (rule Cons.IH)
    with False show ?thesis by simp
  qed
qed

lemma nested_seq:
  assumes "nested (Resolved ()) t1" and "nested r t2"
  shows "nested r (t1 @ t2)"
  unfolding nested_def
proof
  fix active
  from assms(1) have 1: "ordered active False t1 = Some (active, False)"
    unfolding nested_def by (metis append_Nil)
  from assms(2) obtain extra where
    "ordered active False t2 = Some (extra @ active, False)" and "r = Resolved () \<longleftrightarrow> extra = []"
    unfolding nested_def by blast
  with 1 show "\<exists>extra. ordered active False (t1 @ t2) = Some (extra @ active, False)
                  \<and> (r = Resolved () \<longleftrightarrow> extra = [])"
    by (auto simp: ordered_append)
qed


lemma ordered_flat:
  assumes "\<forall>e \<in> set t. \<not> is_purge e \<and> (\<forall>p. e \<noteq> Clean_called p) \<and> (\<forall>p. e \<noteq> Clean_settled p)"
  shows "ordered active False t = Some (active, False)"
  using assms
proof (induction t)
  case Nil
  then show ?case by simp
next
  case (Cons e t)
  then show ?case by (cases e) auto
qed

lemma nested_call:
  assumes "\<And>active. \<exists>extra. ordered active False t = Some (extra @ active, False)
                               \<and> (r = Resolved () \<longrightarrow> extra = [])"
  shows "nested r (Clean_called p # t @ closing p r)"
  unfolding nested_def
proof
  fix active
  from assms [of "p # active"] obtain extra where
    o: "ordered (p # active) False t = Some (extra @ p # active, False)"
    and e: "r = Resolved () \<longrightarrow> extra = []"
    by blast
  show "\<exists>extra. ordered active False (Clean_called p # t @ closing p r) = Some (extra @ active, False)
          \<and> (r = Resolved () \<longleftrightarrow> extra = [])"
  proof (cases "r = Resolved ()")
    case True
    with o e show ?thesis by (simp add: ordered_append closing_def)
  next
    case False
    with o have "ordered active False (Clean_called p # t @ closing p r) =
        Some ((extra @ [p]) @ active, False)"
      by (simp add: ordered_append closing_def)
    with False show ?thesis by blast
  qed
qed

lemma nested_leaf:
  assumes "\<not> directory (properties d)" and "clean_leaf fs d s = Some (r, s', t)"
  shows "nested r (Clean_called (path d) # t @ closing (path d) r)"
proof (rule nested_call)
  fix active
  from assms(2) have "\<forall>e \<in> set t. \<not> is_purge e \<and> (\<forall>p. e \<noteq> Clean_called p) \<and> (\<forall>p. e \<noteq> Clean_settled p)"
    by (auto simp: clean_leaf_unfold forced_def split: if_splits prod.splits option.splits)
  then have "ordered active False t = Some (active, False)" by (rule ordered_flat)
  then show "\<exists>extra. ordered active False t = Some (extra @ active, False)
               \<and> (r = Resolved () \<longrightarrow> extra = [])"
    by simp
qed

lemma nested_directory:
  assumes "nested r t"
  shows "nested r (Clean_called p # Readdir q x # t @ closing p r)"
proof -
  have "nested r (Clean_called p # (Readdir q x # t) @ closing p r)"
  proof (rule nested_call)
    fix active
    from assms obtain extra where
      "ordered active False t = Some (extra @ active, False)" and "r = Resolved () \<longleftrightarrow> extra = []"
      unfolding nested_def by blast
    then show "\<exists>extra. ordered active False (Readdir q x # t) = Some (extra @ active, False)
                 \<and> (r = Resolved () \<longrightarrow> extra = [])"
      by simp
  qed
  then show ?thesis by simp
qed

lemma nested_failed: "nested (Uncaught e) [Clean_called p, Readdir q x]"
proof -
  have "nested (Uncaught e) (Clean_called p # [Readdir q x] @ closing p (Uncaught e))"
    by (rule nested_call) simp
  then show ?thesis by (simp add: closing_def)
qed

lemma walk_nested:
  assumes "for_await (clean fs fuel) ds s = Some (r, s', t)"
  shows "nested r t"
proof (rule walk_lift [where P = nested, OF _ _ _ _ _ assms])
  show "nested (Resolved ()) []" by (simp add: nested_def)
  show "\<And>t1 r t2. nested (Resolved ()) t1 \<Longrightarrow> nested r t2 \<Longrightarrow> nested r (t1 @ t2)"
    by (rule nested_seq)
  show "\<And>(d::Descriptor) r t. nested r t \<Longrightarrow>
          nested r (Clean_called (path d) # Readdir (path d) None # t @ closing (path d) r)"
    by (rule nested_directory)
  show "\<And>(d::Descriptor) e. nested (Uncaught e) [Clean_called (path d), Readdir (path d) (Some e)]"
    by (rule nested_failed)
  show "\<And>d s r s' t. \<not> directory (properties d) \<Longrightarrow> clean_leaf fs d s = Some (r, s', t)
          \<Longrightarrow> nested r (Clean_called (path d) # t @ closing (path d) r)"
    by (rule nested_leaf)
qed


lemma for_await_in_turn:
  assumes "for_await body xs s = Some (r, s', t)"
  shows "\<exists>runs. in_turn body xs s runs \<and> t = trace_of runs \<and> s' = left_by s runs
           \<and> (r = Resolved () \<longleftrightarrow> length runs = length xs \<and> all_resolved runs)
           \<and> (r \<noteq> Resolved () \<longrightarrow> runs \<noteq> [] \<and> fst (last runs) = r)"
  using assms
proof (induction xs arbitrary: s r s' t)
  case Nil
  then show ?case by (simp add: for_await_Nil trace_of_def left_by_def all_resolved_def)
next
  case (Cons x xs)
  from Cons.prems obtain r1 s1 t1 where b: "body x s = Some (r1, s1, t1)"
    by (auto simp: for_await_Cons split: option.splits)
  show ?case
  proof (cases "r1 = Resolved ()")
    case True
    with Cons.prems b obtain t2 where
      rest: "for_await body xs s1 = Some (r, s', t2)" and t: "t = t1 @ t2"
      by (auto simp: for_await_Cons split: option.splits)
    from Cons.IH [OF rest] obtain runs where
      i: "in_turn body xs s1 runs" and tr: "t2 = trace_of runs" and l: "s' = left_by s1 runs"
      and re: "r = Resolved () \<longleftrightarrow> length runs = length xs \<and> all_resolved runs"
      and nr: "r \<noteq> Resolved () \<longrightarrow> runs \<noteq> [] \<and> fst (last runs) = r" by blast
    let ?runs = "(r1, s1, t1) # runs"
    have "in_turn body (x # xs) s ?runs" using b True i by simp
    moreover have "t = trace_of ?runs" using t tr by (simp add: trace_of_def)
    moreover have "s' = left_by s ?runs" using l by (simp add: left_by_def)
    moreover have "r = Resolved () \<longleftrightarrow> length ?runs = length (x # xs) \<and> all_resolved ?runs"
      using re True by (simp add: all_resolved_def)
    moreover have "r \<noteq> Resolved () \<longrightarrow> ?runs \<noteq> [] \<and> fst (last ?runs) = r" using nr by simp
    ultimately show ?thesis by blast
  next
    case False
    with Cons.prems b have e: "r = r1" "s' = s1" "t = t1" by (simp_all add: for_await_Cons)
    let ?runs = "[(r1, s1, t1)]"
    have "in_turn body (x # xs) s ?runs" using b False by simp
    moreover have "t = trace_of ?runs" using e by (simp add: trace_of_def)
    moreover have "s' = left_by s ?runs" using e by (simp add: left_by_def)
    moreover have "r = Resolved () \<longleftrightarrow> length ?runs = length (x # xs) \<and> all_resolved ?runs"
      using e False by (simp add: all_resolved_def)
    moreover have "r \<noteq> Resolved () \<longrightarrow> ?runs \<noteq> [] \<and> fst (last ?runs) = r" using e by simp
    ultimately show ?thesis by blast
  qed
qed

lemma clean_in_turn:
  assumes "directory (properties d)" and "readdir fs (path d) s = Inr files"
    and "clean fs (Suc fuel) d s = Some (r, s', t)"
  shows "\<exists>runs. in_turn (clean fs fuel) (remap fs (path d) files) s runs
           \<and> t = Clean_called (path d) # Readdir (path d) None # trace_of runs @ closing (path d) r
           \<and> s' = left_by s runs
           \<and> (r = Resolved () \<longleftrightarrow> length runs = length files \<and> all_resolved runs)"
proof -
  from assms obtain t1 where
    loop: "for_await (clean fs fuel) (remap fs (path d) files) s = Some (r, s', t1)"
    and t: "t = Clean_called (path d) # Readdir (path d) None # t1 @ closing (path d) r"
    unfolding clean_Suc_directory [OF assms(1)] by (auto split: option.splits)
  from for_await_in_turn [OF loop] t show ?thesis by (auto simp: remap_def)
qed

lemma Remove_in_turn:
  assumes "probe fs p s" and "readdir fs p s = Inr files"
    and "Remove fs fuel p s = Some (r, s', t)"
  shows "\<exists>runs. in_turn (clean fs fuel) (remap fs p files) s runs
           \<and> (if length runs = length files \<and> all_resolved runs
               then \<exists>x. rm fs p purge_options (left_by s runs) = (x, s')
                        \<and> t = head_trace fs p s @ trace_of runs
                              @ Rm p purge_options x # (if x = None then [Stdout_newline] else [])
               else s' = left_by s runs \<and> t = head_trace fs p s @ trace_of runs)
           \<and> (r = Resolved () \<longrightarrow> length runs = length files \<and> all_resolved runs)"
proof -
  from assms obtain r1 s1 t1 where
    walk: "for_await (clean fs fuel) (remap fs p files) s = Some (r1, s1, t1)"
    by (auto simp: Remove_listed [OF assms(1,2)] split: option.splits)
  from for_await_in_turn [OF walk] obtain runs where
    i: "in_turn (clean fs fuel) (remap fs p files) s runs" and tr: "t1 = trace_of runs"
    and l: "s1 = left_by s runs"
    and re: "r1 = Resolved () \<longleftrightarrow> length runs = length (remap fs p files) \<and> all_resolved runs"
    by blast
  have len: "length (remap fs p files) = length files" by (simp add: remap_def)
  show ?thesis
  proof (cases "r1 = Resolved ()")
    case True
    obtain x s2 where rm: "rm fs p purge_options s1 = (x, s2)" by (cases "rm fs p purge_options s1")
    with assms(3) walk True have "s' = s2"
      and "t = head_trace fs p s @ t1 @ Rm p purge_options x # (if x = None then [Stdout_newline] else [])"
      by (auto simp: Remove_listed [OF assms(1,2)] split: option.splits)
    with i tr l re len True rm show ?thesis by auto
  next
    case False
    with assms(3) walk have "s' = s1" and "t = head_trace fs p s @ t1" and "r = r1"
      by (auto simp: Remove_listed [OF assms(1,2)] split: settled.splits)
    with i tr l re len False show ?thesis by auto
  qed
qed


lemma purge_order:
  assumes "Remove fs fuel target s = Some (r, s', t)"
  shows "\<exists>active purged.
           ordered [] False t = Some (active, purged)
           \<and> length (filter is_purge t) = (if purged then 1 else 0)
           \<and> (purged \<longleftrightarrow>
                probe fs target s \<and> (\<exists>files. readdir fs target s = Inr files) \<and> active = [])"
proof -
  have "\<exists>active purged.
          ordered [] False t = Some (active, purged)
          \<and> (purged \<longleftrightarrow>
               probe fs target s \<and> (\<exists>files. readdir fs target s = Inr files) \<and> active = [])"
  proof (cases "probe fs target s")
    case False
    with assms show ?thesis by (auto simp: Remove_absent)
  next
    case True
    show ?thesis
    proof (cases "readdir fs target s")
      case (Inl e)
      with True assms show ?thesis by (auto simp: Remove_unlistable head_trace_def)
    next
      case (Inr files)
      from assms obtain r1 s1 t1 where
        walk: "for_await (clean fs fuel) (remap fs target files) s = Some (r1, s1, t1)"
        by (auto simp: Remove_listed [OF True Inr] split: option.splits)
      have "nested r1 t1" using walk by (rule walk_nested)
      then obtain extra where
        o: "ordered [] False t1 = Some (extra, False)" and e: "r1 = Resolved () \<longleftrightarrow> extra = []"
        unfolding nested_def by (metis append_Nil2)
      show ?thesis
      proof (cases "r1 = Resolved ()")
        case res: True
        with assms walk have "\<exists>x z. t = head_trace fs target s @ t1 @ Rm target purge_options x # z
                                \<and> (z = [] \<or> z = [Stdout_newline])"
          by (auto simp: Remove_listed [OF True Inr] split: prod.splits option.splits)
        then obtain x z where t: "t = head_trace fs target s @ t1 @ Rm target purge_options x # z"
          and z: "z = [] \<or> z = [Stdout_newline]" by blast
        from o e res z have "ordered [] False t = Some ([], True)"
          unfolding t by (auto simp: ordered_append head_trace_def purge_options_def)
        with True Inr show ?thesis by simp
      next
        case nres: False
        with assms walk have t: "t = head_trace fs target s @ t1"
          by (auto simp: Remove_listed [OF True Inr] split: settled.splits)
        from o have "ordered [] False t = Some (extra, False)"
          unfolding t by (simp add: ordered_append head_trace_def)
        with e nres show ?thesis by simp
      qed
    qed
  qed
  then obtain active purged where
    o: "ordered [] False t = Some (active, purged)"
    and p: "purged \<longleftrightarrow> probe fs target s \<and> (\<exists>files. readdir fs target s = Inr files) \<and> active = []"
    by blast
  from o have "length (filter is_purge t) = (if purged then 1 else 0)" by (rule ordered_purges)
  with o p show ?thesis by blast
qed

text \<open>
  Claim C7, as amended. In every run of \<open>Remove\<close> on a target that exists and can be
  listed, the entries of the target are cleaned one after the other, in the order of the
  listing: each call of \<open>clean\<close> starts in the state that the call before it left, and
  only when that call has settled. The same holds inside every call of \<open>clean\<close> on a
  directory that can be listed: what the call does is its own listing, then the calls on
  the entries, one after the other and each of them complete before the next starts, and
  only then, when each of them has settled, the settlement of the call itself; so the walk
  is depth-first, and a directory is not cleaned before every call on an entry of it has
  settled. The purge is issued at most once, with no call of \<open>clean\<close> unsettled, and
  neither a call of \<open>clean\<close> nor a primitive follows it. It is issued exactly once when
  the target existed, its listing succeeded and every call of \<open>clean\<close> has settled,
  after the last of these calls, on the state it left; and it is not issued otherwise.
\<close>

theorem purge_follows_the_settled_walk:
  assumes "Remove fs fuel target s = Some (r, s', t)"
  shows "(\<exists>active purged.
            ordered [] False t = Some (active, purged)
            \<and> length (filter is_purge t) = (if purged then 1 else 0)
            \<and> (purged \<longleftrightarrow>
                 probe fs target s \<and> (\<exists>files. readdir fs target s = Inr files) \<and> active = []))
       \<and> (\<forall>files. probe fs target s \<longrightarrow> readdir fs target s = Inr files \<longrightarrow>
            (\<exists>runs. in_turn (clean fs fuel) (remap fs target files) s runs
               \<and> (if length runs = length files \<and> all_resolved runs
                   then \<exists>x. rm fs target purge_options (left_by s runs) = (x, s')
                            \<and> t = head_trace fs target s @ trace_of runs
                                  @ Rm target purge_options x # (if x = None then [Stdout_newline] else [])
                   else s' = left_by s runs \<and> t = head_trace fs target s @ trace_of runs)
               \<and> (r = Resolved () \<longrightarrow> length runs = length files \<and> all_resolved runs)))
       \<and> (\<forall>d k a files u b w.
            directory (properties d) \<longrightarrow> readdir fs (path d) a = Inr files \<longrightarrow>
            clean fs (Suc k) d a = Some (u, b, w) \<longrightarrow>
            (\<exists>runs. in_turn (clean fs k) (remap fs (path d) files) a runs
               \<and> w = Clean_called (path d) # Readdir (path d) None # trace_of runs @ closing (path d) u
               \<and> b = left_by a runs
               \<and> (u = Resolved () \<longleftrightarrow> length runs = length files \<and> all_resolved runs)))"
proof (intro conjI allI impI)
  show "\<exists>active purged.
          ordered [] False t = Some (active, purged)
          \<and> length (filter is_purge t) = (if purged then 1 else 0)
          \<and> (purged \<longleftrightarrow>
               probe fs target s \<and> (\<exists>files. readdir fs target s = Inr files) \<and> active = [])"
    using assms by (rule purge_order)
next
  fix files
  assume "probe fs target s" and "readdir fs target s = Inr files"
  then show "\<exists>runs. in_turn (clean fs fuel) (remap fs target files) s runs
               \<and> (if length runs = length files \<and> all_resolved runs
                   then \<exists>x. rm fs target purge_options (left_by s runs) = (x, s')
                            \<and> t = head_trace fs target s @ trace_of runs
                                  @ Rm target purge_options x # (if x = None then [Stdout_newline] else [])
                   else s' = left_by s runs \<and> t = head_trace fs target s @ trace_of runs)
               \<and> (r = Resolved () \<longrightarrow> length runs = length files \<and> all_resolved runs)"
    using assms by (rule Remove_in_turn)
next
  fix d :: Descriptor and k a files u b w
  assume "directory (properties d)" and "readdir fs (path d) a = Inr files"
    and "clean fs (Suc k) d a = Some (u, b, w)"
  then show "\<exists>runs. in_turn (clean fs k) (remap fs (path d) files) a runs
               \<and> w = Clean_called (path d) # Readdir (path d) None # trace_of runs @ closing (path d) u
               \<and> b = left_by a runs
               \<and> (u = Resolved () \<longleftrightarrow> length runs = length files \<and> all_resolved runs)"
    by (rule clean_in_turn)
qed

theorem purge_follows_the_settled_walk_witness:
  "Remove (disk_platform ''/'') 2 ''/root'' mixed_disk = Some (Resolved (), elsewhere_disk, mixed_trace)
   \<and> ordered [] False mixed_trace = Some ([], True)
   \<and> length (filter is_purge mixed_trace) = 1
   \<and> probe (disk_platform ''/'') ''/root'' mixed_disk
   \<and> readdir (disk_platform ''/'') ''/root'' mixed_disk =
       Inr [Dirent ''a.txt'' DT_FILE, Dirent ''b'' DT_DIR, Dirent ''d'' DT_LINK]
   \<and> (\<exists>runs. in_turn (clean (disk_platform ''/'') 2)
                 [leaf ''a.txt'' ''/root/a.txt'' DT_FILE, leaf ''b'' ''/root/b'' DT_DIR,
                  leaf ''d'' ''/root/d'' DT_LINK] mixed_disk runs
         \<and> length runs = 3 \<and> all_resolved runs
         \<and> rm (disk_platform ''/'') ''/root'' purge_options (left_by mixed_disk runs) = (None, elsewhere_disk)
         \<and> mixed_trace = head_trace (disk_platform ''/'') ''/root'' mixed_disk @ trace_of runs
                          @ [Rm ''/root'' purge_options None, Stdout_newline])
   \<and> directory (properties (leaf ''b'' ''/root/b'' DT_DIR))
   \<and> readdir (disk_platform ''/'') ''/root/b'' mixed_disk = Inr [Dirent ''c.txt'' DT_FILE]
   \<and> clean (disk_platform ''/'') 2 (leaf ''b'' ''/root/b'' DT_DIR) mixed_disk =
       Some (Resolved (), emptied_disk, emptied_trace)
   \<and> (\<exists>runs. in_turn (clean (disk_platform ''/'') 1) [leaf ''c.txt'' ''/root/b/c.txt'' DT_FILE]
                 mixed_disk runs
         \<and> emptied_trace = Clean_called ''/root/b'' # Readdir ''/root/b'' None # trace_of runs
                            @ [Clean_settled ''/root/b'']
         \<and> emptied_disk = left_by mixed_disk runs \<and> length runs = 1 \<and> all_resolved runs)"
proof -
  let ?P = "disk_platform ''/''"
  let ?b = "leaf ''b'' ''/root/b'' DT_DIR"
  let ?files = "[Dirent ''a.txt'' DT_FILE, Dirent ''b'' DT_DIR, Dirent ''d'' DT_LINK]"
  note T = purge_follows_the_settled_walk [OF mixed_run]
  have o: "ordered [] False mixed_trace = Some ([], True)" by code_simp
  have pr: "probe ?P ''/root'' mixed_disk" by code_simp
  from T [THEN conjunct1] o have n: "length (filter is_purge mixed_trace) = 1" by simp
  from T [THEN conjunct2, THEN conjunct1, rule_format, OF pr mixed_listing] obtain runs where
    i: "in_turn (clean ?P 2) (remap ?P ''/root'' ?files) mixed_disk runs"
    and c: "if length runs = length ?files \<and> all_resolved runs
            then \<exists>x. rm ?P ''/root'' purge_options (left_by mixed_disk runs) = (x, elsewhere_disk)
                     \<and> mixed_trace = head_trace ?P ''/root'' mixed_disk @ trace_of runs
                           @ Rm ''/root'' purge_options x # (if x = None then [Stdout_newline] else [])
            else elsewhere_disk = left_by mixed_disk runs
                 \<and> mixed_trace = head_trace ?P ''/root'' mixed_disk @ trace_of runs"
    and rr: "length runs = length ?files \<and> all_resolved runs"
    by auto
  from rr have len: "length runs = 3" and all: "all_resolved runs" by simp_all
  from c rr obtain x where m: "rm ?P ''/root'' purge_options (left_by mixed_disk runs) = (x, elsewhere_disk)"
    and tr: "mixed_trace = head_trace ?P ''/root'' mixed_disk @ trace_of runs
               @ Rm ''/root'' purge_options x # (if x = None then [Stdout_newline] else [])"
    by auto
  have x: "x = None"
  proof (rule ccontr)
    assume "x \<noteq> None"
    with tr have "mixed_trace = (head_trace ?P ''/root'' mixed_disk @ trace_of runs)
        @ [Rm ''/root'' purge_options x]" by simp
    then have "last mixed_trace = Rm ''/root'' purge_options x" by (metis last_snoc)
    then show False by (simp add: mixed_trace_def)
  qed
  have top: "\<exists>runs. in_turn (clean ?P 2)
                 [leaf ''a.txt'' ''/root/a.txt'' DT_FILE, ?b, leaf ''d'' ''/root/d'' DT_LINK] mixed_disk runs
         \<and> length runs = 3 \<and> all_resolved runs
         \<and> rm ?P ''/root'' purge_options (left_by mixed_disk runs) = (None, elsewhere_disk)
         \<and> mixed_trace = head_trace ?P ''/root'' mixed_disk @ trace_of runs
                          @ [Rm ''/root'' purge_options None, Stdout_newline]"
    using i len all m tr x unfolding mixed_descriptors by auto
  have d: "directory (properties ?b)" by (simp add: leaf_def)
  have pb: "path ?b = ''/root/b''" by (simp add: leaf_def)
  have lb: "readdir ?P ''/root/b'' mixed_disk = Inr [Dirent ''c.txt'' DT_FILE]" by code_simp
  have cb: "clean ?P 2 ?b mixed_disk = Some (Resolved (), emptied_disk, emptied_trace)" by code_simp
  have rb: "remap ?P ''/root/b'' [Dirent ''c.txt'' DT_FILE] = [leaf ''c.txt'' ''/root/b/c.txt'' DT_FILE]"
    by code_simp
  have lb': "readdir ?P (path ?b) mixed_disk = Inr [Dirent ''c.txt'' DT_FILE]" using lb pb by simp
  have cb': "clean ?P (Suc (Suc 0)) ?b mixed_disk = Some (Resolved (), emptied_disk, emptied_trace)"
    using cb by (simp add: numeral_2_eq_2)
  from T [THEN conjunct2, THEN conjunct2, rule_format, OF d lb' cb']
  have sub: "\<exists>runs. in_turn (clean ?P 1) [leaf ''c.txt'' ''/root/b/c.txt'' DT_FILE] mixed_disk runs
         \<and> emptied_trace = Clean_called ''/root/b'' # Readdir ''/root/b'' None # trace_of runs
                            @ [Clean_settled ''/root/b'']
         \<and> emptied_disk = left_by mixed_disk runs \<and> length runs = 1 \<and> all_resolved runs"
    unfolding pb rb by (auto simp: closing_def)
  show ?thesis by (intro conjI mixed_run o n pr mixed_listing top d lb cb sub)
qed

text \<open>
  Claim C7 as stated fails: on a target that exists and cannot be listed no call of
  \<open>clean\<close> is left unsettled, and the purge is invoked not once but never.
\<close>

theorem purge_exactly_once_counterexample:
  "probe (disk_platform ''/'') ''/locked'' locked_disk
   \<and> Remove (disk_platform ''/'') 1 ''/locked'' locked_disk =
       Some (Uncaught (errno ''EACCES''), locked_disk,
             [Realpath ''/locked'' None, Debug_found, Stdout_newline, Debug_removing ''/locked'',
              Readdir ''/locked'' (Some (errno ''EACCES''))])
   \<and> length (filter is_purge
        [Realpath ''/locked'' None, Debug_found, Stdout_newline, Debug_removing ''/locked'',
         Readdir ''/locked'' (Some (errno ''EACCES''))]) = 0"
  by code_simp

section \<open>Paths\<close>

lemma split_sep_not_Nil [simp]: "split_sep s \<noteq> []"
  by (induction s) auto

lemma split_sep_append:
  "split_sep (a @ CHR ''/'' # b) = split_sep a @ split_sep b"
proof (induction a)
  case Nil
  show ?case by simp
next
  case (Cons c a)
  have "hd (split_sep a @ split_sep b) = hd (split_sep a)"
    and "tl (split_sep a @ split_sep b) = tl (split_sep a) @ split_sep b"
    by simp_all
  with Cons show ?case by simp
qed

lemma split_sep_base: "CHR ''/'' \<notin> set n \<Longrightarrow> split_sep n = [n]"
  by (induction n) auto

lemma split_sep_slash_free: "x \<in> set (split_sep s) \<Longrightarrow> CHR ''/'' \<notin> set x"
proof (induction s arbitrary: x)
  case Nil
  then show ?case by simp
next
  case (Cons c s)
  have ne: "split_sep s \<noteq> []" by simp
  then obtain h t where ht: "split_sep s = h # t" by (cases "split_sep s") auto
  show ?case
  proof (cases "c = CHR ''/''")
    case True
    with Cons show ?thesis by auto
  next
    case False
    with Cons.prems ht have "x = c # h \<or> x \<in> set t" by simp
    then show ?thesis
    proof
      assume "x = c # h"
      moreover have "CHR ''/'' \<notin> set h" using Cons.IH [of h] ht by simp
      ultimately show ?thesis using False by simp
    next
      assume "x \<in> set t"
      then show ?thesis using Cons.IH [of x] ht by simp
    qed
  qed
qed

lemma split_sep_join:
  "S \<noteq> [] \<Longrightarrow> \<forall>x \<in> set S. CHR ''/'' \<notin> set x \<Longrightarrow> split_sep (join_sep S) = S"
proof (induction S rule: join_sep.induct)
  case 1
  then show ?case by simp
next
  case (2 x)
  then show ?case by (simp add: split_sep_base)
next
  case (3 x y ys)
  then show ?case by (simp add: split_sep_append split_sep_base)
qed





lemma normalize_step_base: "base_name n \<Longrightarrow> normalize_step a res n = res @ [n]"
  by (auto simp: normalize_step_def base_name_def)

lemma normalize_step_empty: "normalize_step a res [] = res"
  by (simp add: normalize_step_def)

lemma normalize_step_clean:
  assumes "\<forall>x \<in> set res. base_name x" and "CHR ''/'' \<notin> set seg"
  shows "\<forall>x \<in> set (normalize_step False res seg). base_name x"
  using assms by (auto simp: normalize_step_def base_name_def dest: in_set_butlastD)

lemma foldl_normalize_clean:
  assumes "\<forall>x \<in> set segs. CHR ''/'' \<notin> set x" and "\<forall>x \<in> set acc. base_name x"
  shows "\<forall>x \<in> set (foldl (normalize_step False) acc segs). base_name x"
  using assms
proof (induction segs arbitrary: acc)
  case Nil
  then show ?case by simp
next
  case (Cons seg segs)
  have "\<forall>x \<in> set (normalize_step False acc seg). base_name x"
    using Cons.prems by (intro normalize_step_clean) auto
  with Cons show ?case by simp
qed

lemma components_clean: "\<forall>x \<in> set (components p). base_name x"
  unfolding components_def normalize_segments_def
  by (rule foldl_normalize_clean) (auto dest: split_sep_slash_free)

lemma foldl_normalize_base:
  "\<forall>x \<in> set S. base_name x \<Longrightarrow> foldl (normalize_step a) acc S = acc @ S"
  by (induction S arbitrary: acc) (auto simp: normalize_step_base)

lemma normalize_segments_clean:
  "\<forall>x \<in> set S. base_name x \<Longrightarrow> normalize_segments a ([] # S) = S"
  by (simp add: normalize_segments_def normalize_step_empty foldl_normalize_base)

text \<open>An absolute normalised path: a separator followed by base names joined.\<close>

lemma components_rooted:
  assumes "\<forall>x \<in> set C. base_name x"
  shows "components (CHR ''/'' # join_sep C) = C"
proof (cases "C = []")
  case True
  then show ?thesis
    by (simp add: components_def normalize_segments_def normalize_step_empty)
next
  case False
  have "\<forall>x \<in> set C. CHR ''/'' \<notin> set x" using assms by (auto simp: base_name_def)
  with False have "split_sep (join_sep C) = C" by (rule split_sep_join)
  then show ?thesis using assms by (simp add: components_def normalize_segments_clean)
qed

lemma canonical_rooted: "\<forall>x \<in> set C. base_name x \<Longrightarrow> canonical (CHR ''/'' # join_sep C)"
  by (simp add: canonical_def components_rooted)

lemma resolve_loop_one:
  "isAbsolute wd \<Longrightarrow> resolve_loop (rev [location] @ [wd]) [] False = (stem wd location, True)"
  by (auto simp: stem_def isAbsolute_def)






lemma path_resolve_one:
  "isAbsolute wd \<Longrightarrow>
   path_resolve wd [location] = CHR ''/'' # join_sep (components (stem wd location))"
  by (simp add: path_resolve_def resolve_loop_one normalizeString_def components_def
      del: resolve_loop.simps rev.simps)




lemma canonical_resolve_one: "isAbsolute wd \<Longrightarrow> canonical (path_resolve wd [location])"
  by (simp add: path_resolve_one canonical_rooted components_clean)







section \<open>Induction over the walk, with the states and an invariant of the descriptors\<close>



section \<open>Where the walk operates\<close>









section \<open>The listings of the small filesystem\<close>





section \<open>The small filesystem: what its primitives remove\<close>
























lemma snd_forgive: "snd (forgive r) = snd r"
  by (simp add: forgive_def)


declare rimraf.simps(2) [simp del]















































section \<open>The target after a run that returned\<close>





text \<open>
  Why the directories on the way to the target must not be links. \<open>FS.realpath\<close> resolves
  the target of a link with \<open>Path.resolve\<close>, so for it \<open>/l/x\<close> is \<open>/b/x\<close>; the kernel,
  which \<open>FS.readdir\<close> and \<open>FS.rm\<close> ask, takes \<open>/l/x\<close> to \<open>/c/b/x\<close>. \<open>Remove\<close> of
  \<open>/l/x\<close> removes \<open>/c/b/x\<close> and returns, and the probe still finds \<open>/b/x\<close>.
\<close>

lemma detour_run:
  "Remove (disk_platform ''/'') 2 ''/l/x'' detour_disk =
     Some (Resolved (),
           plain_disk [(''/l'', Symlink ''a/../b''), (''/a'', Symlink ''/c/d''), (''/b'', Folder),
                       (''/b/x'', Folder), (''/c'', Folder), (''/c/d'', Folder), (''/c/b'', Folder)],
           [Realpath ''/l/x'' None, Debug_found, Stdout_newline, Debug_removing ''/l/x'',
            Readdir ''/l/x'' None, Rm ''/l/x'' purge_options None, Stdout_newline])
   \<and> probe (disk_platform ''/'') ''/l/x''
        (plain_disk [(''/l'', Symlink ''a/../b''), (''/a'', Symlink ''/c/d''), (''/b'', Folder),
                     (''/b/x'', Folder), (''/c'', Folder), (''/c/d'', Folder), (''/c/b'', Folder)])
   \<and> canonical ''/l/x'' \<and> \<not> plain_route detour_disk ''/l/x''"
  by code_simp




section \<open>Symbolic links\<close>






text \<open>
  Why the target itself must not be a link for the rest of the filesystem to be left
  alone. The listing of \<open>/link\<close> follows the link and reports the entries of
  \<open>/elsewhere\<close>; the path of \<open>keep\<close> is made from the target, so its unlink passes
  through the link and removes \<open>/elsewhere/keep\<close>; the purge then removes the link.
\<close>

lemma linked_target_run:
  "Remove (disk_platform ''/'') 2 ''/link'' linked_disk =
     Some (Resolved (), plain_disk [(''/elsewhere'', Folder)],
           [Realpath ''/link'' None, Debug_found, Stdout_newline, Debug_removing ''/link'',
            Readdir ''/link'' None, Clean_called ''/link/keep'', Realpath ''/link/keep'' None,
            Debug_removing ''/link/keep'', Unlink ''/link/keep'' None, Clean_settled ''/link/keep'',
            Rm ''/link'' purge_options None, Stdout_newline])
   \<and> canonical ''/link'' \<and> \<not> plain_path linked_disk ''/link''
   \<and> canonical ''/elsewhere/keep''
   \<and> \<not> prefix (components ''/link'') (components ''/elsewhere/keep'')
   \<and> lookup linked_disk ''/elsewhere/keep'' = Some Regular
   \<and> lookup (plain_disk [(''/elsewhere'', Folder)]) ''/elsewhere/keep'' = None"
  by code_simp


end
